theory Spec2Isabelle
  imports Complex_Main "HOL-Library.AList" "HOL-Library.Sublist"
begin

section \<open>The in-memory cache of InMemoryCache.py\<close>

text \<open>
  The class \<open>InMemoryCache\<close> keeps an \<open>OrderedDict\<close> from keys to items, a capacity
  \<open>max_size\<close> and a fallback \<open>default_ttl\<close>. The lock serialises the operations, so every
  operation is modelled as one function from the state before to the state after.

  Every call of \<open>time.time()\<close> is an input of the operation that makes it: \<open>put\<close> reads the
  clock three times (for \<open>expires_at\<close>, inside \<open>_evict_expired\<close>, for \<open>created_at\<close>) and takes
  three readings. Clock readings are floats; they are modelled by the real numbers they
  denote, and comparing two of them is comparing these reals.
\<close>

type_synonym time = real
type_synonym key = string

text \<open>
  Python values, as far as JSON can carry them: \<open>None\<close>, booleans, integers, floats, strings,
  lists and dictionaries with string keys (in insertion order; a lookup finds the first
  binding of a key).
\<close>

datatype pyval =
    PNone
  | PBool bool
  | PInt int
  | PFloat real
  | PStr string
  | PList "pyval list"
  | PDict "(string \<times> pyval) list"

text \<open>
  The exceptions the modelled code can raise. The text \<open>str(e)\<close> of an exception is produced
  by the Python runtime and is a parameter of the handlers that print it.
\<close>

datatype py_error = KeyError | TypeError | OverflowError | Raised string

text \<open>
  Line 69 of \<open>put\<close> adds a float and an int, \<open>time.time() + ttl\<close>. The Python runtime
  converts the int to a float and adds the two floats: it raises \<open>OverflowError\<close> when the int
  is too large for a float, and otherwise returns the sum rounded to a float (for a reading
  of the system clock a finite one). The model does not compute this addition. It is a
  parameter \<open>fadd\<close> of \<open>put\<close> and of everything that calls \<open>put\<close>, and nothing is assumed
  about it: it may raise, and what it returns need not be the exact sum.

  \<open>exact_add\<close> is the addition that returns the exact sum. It is used only to evaluate the
  model on concrete inputs, small whole numbers, for which the exact sum is a float and
  is what the float addition returns.
\<close>

type_synonym float_add = "time \<Rightarrow> int \<Rightarrow> py_error + time"

definition exact_add :: float_add where
  "exact_add t n = Inr (t + real_of_int n)"

text \<open>
  A cache item is the dictionary \<open>{'value', 'ttl', 'expires_at', 'created_at'}\<close> built in
  \<open>put\<close>. \<open>put\<close> is the only place that builds one, and it sets \<open>'ttl'\<close> and \<open>'expires_at'\<close>
  from the same test \<open>ttl > 0\<close>: either both are \<open>None\<close> or both are set. The field
  \<open>expiry\<close> holds the two together.
\<close>

record item =
  item_value :: pyval
  expiry :: "(int \<times> time) option"
  created_at :: time

definition ttl :: "item \<Rightarrow> int option" where
  "ttl it = map_option fst (expiry it)"

definition expires_at :: "item \<Rightarrow> time option" where
  "expires_at it = map_option snd (expiry it)"

text \<open>
  The \<open>OrderedDict\<close> is an association list in dictionary order: the head is the first
  (least recently used) entry, the last element the most recent one.
  \<open>d[k] = v\<close> is \<open>AList.update\<close> (an existing key keeps its place, a new key goes to the end),
  \<open>del d[k]\<close> is \<open>AList.delete\<close>, \<open>k in d\<close> and \<open>d[k]\<close> are \<open>map_of\<close>.
\<close>

record in_memory_cache =
  max_size :: int
  default_ttl :: int
  cache :: "(key \<times> item) list"

definition InMemoryCache_init :: "int \<Rightarrow> int \<Rightarrow> in_memory_cache" where
  "InMemoryCache_init m d = \<lparr>max_size = m, default_ttl = d, cache = []\<rparr>"

definition is_expired :: "item \<Rightarrow> time \<Rightarrow> bool" where
  "is_expired it now =
     (case expiry it of
        None \<Rightarrow> False
      | Some (n, e) \<Rightarrow> now > e)"

text \<open>The first loop of \<open>_evict_expired\<close> collects the keys, the second deletes them.\<close>

definition expired_keys :: "(key \<times> item) list \<Rightarrow> time \<Rightarrow> key list" where
  "expired_keys xs current_time =
     map fst (filter (\<lambda>(k, it). case expiry it of
                                   None \<Rightarrow> False
                                 | Some (n, e) \<Rightarrow> current_time > e) xs)"

definition evict_expired :: "in_memory_cache \<Rightarrow> time \<Rightarrow> in_memory_cache" where
  "evict_expired c current_time =
     c\<lparr>cache := fold AList.delete (expired_keys (cache c) current_time) (cache c)\<rparr>"

text \<open>\<open>popitem(last=False)\<close> raises \<open>KeyError\<close> on an empty dictionary.\<close>

definition evict_lru :: "in_memory_cache \<Rightarrow> py_error + in_memory_cache" where
  "evict_lru c =
     (if int (length (cache c)) \<ge> max_size c then
        (case cache c of
           [] \<Rightarrow> Inl KeyError
         | x # xs \<Rightarrow> Inr (c\<lparr>cache := xs\<rparr>))
      else Inr c)"

text \<open>
  The first lines of \<open>put\<close>: \<open>if ttl is None: ttl = self.default_ttl\<close> and
  \<open>expires_at = time.time() + ttl if ttl > 0 else None\<close>. The addition is evaluated only when
  \<open>ttl > 0\<close>.
\<close>

definition effective_ttl :: "in_memory_cache \<Rightarrow> int option \<Rightarrow> int" where
  "effective_ttl c ttl_arg = (case ttl_arg of None \<Rightarrow> default_ttl c | Some n \<Rightarrow> n)"

definition expiration :: "float_add \<Rightarrow> time \<Rightarrow> int \<Rightarrow> py_error + time option" where
  "expiration fadd now ttl1 =
     (if ttl1 > 0 then
        (case fadd now ttl1 of
           Inl e \<Rightarrow> Inl e
         | Inr x \<Rightarrow> Inr (Some x))
      else Inr None)"

text \<open>
  \<open>put\<close> returns \<open>True\<close> or raises. When the addition raises, nothing has been changed yet.
  When \<open>popitem\<close> raises, the sweep of expired items has already happened. The state after is
  returned in every case. The new item has \<open>'ttl'\<close> and \<open>'expires_at'\<close> set exactly when
  \<open>ttl > 0\<close>.
\<close>

definition put ::
  "float_add \<Rightarrow> in_memory_cache \<Rightarrow> key \<Rightarrow> pyval \<Rightarrow> int option \<Rightarrow> time \<Rightarrow> time \<Rightarrow> time
     \<Rightarrow> (py_error + bool) \<times> in_memory_cache" where
  "put fadd c k v ttl_arg t_expiry t_sweep t_created =
     (let ttl1 = effective_ttl c ttl_arg
      in case expiration fadd t_expiry ttl1 of
           Inl e \<Rightarrow> (Inl e, c)
         | Inr exp_at \<Rightarrow>
            (let c1 = evict_expired c t_sweep;
                 r = (if map_of (cache c1) k \<noteq> None
                      then Inr (c1\<lparr>cache := AList.delete k (cache c1)\<rparr>)
                      else evict_lru c1)
             in case r of
                  Inl e \<Rightarrow> (Inl e, c1)
                | Inr c2 \<Rightarrow>
                    (Inr True,
                     c2\<lparr>cache := AList.update k
                           \<lparr>item_value = v, expiry = map_option (Pair ttl1) exp_at,
                            created_at = t_created\<rparr> (cache c2)\<rparr>)))"

text \<open>
  \<open>get\<close> returns \<open>None\<close> for a miss and the item's value for a hit. \<open>move_to_end(key)\<close> is
  called only for a key that is present: it takes the entry out and appends it.
\<close>

definition get :: "in_memory_cache \<Rightarrow> key \<Rightarrow> time \<Rightarrow> pyval \<times> in_memory_cache" where
  "get c k now =
     (case map_of (cache c) k of
        None \<Rightarrow> (PNone, c)
      | Some it \<Rightarrow>
          if is_expired it now
          then (PNone, c\<lparr>cache := AList.delete k (cache c)\<rparr>)
          else (item_value it, c\<lparr>cache := AList.delete k (cache c) @ [(k, it)]\<rparr>))"

definition delete :: "in_memory_cache \<Rightarrow> key \<Rightarrow> bool \<times> in_memory_cache" where
  "delete c k =
     (if map_of (cache c) k \<noteq> None
      then (True, c\<lparr>cache := AList.delete k (cache c)\<rparr>)
      else (False, c))"

definition clear :: "in_memory_cache \<Rightarrow> in_memory_cache" where
  "clear c = c\<lparr>cache := []\<rparr>"

definition size_op :: "in_memory_cache \<Rightarrow> time \<Rightarrow> int \<times> in_memory_cache" where
  "size_op c now =
     (let c1 = evict_expired c now in (int (length (cache c1)), c1))"

definition stats :: "in_memory_cache \<Rightarrow> time \<Rightarrow> (string \<times> pyval) list \<times> in_memory_cache" where
  "stats c now =
     (let c1 = evict_expired c now
      in ([(''size'', PInt (int (length (cache c1)))),
           (''max_size'', PInt (max_size c1)),
           (''default_ttl'', PInt (default_ttl c1))], c1))"

subsection \<open>Sequences of operations\<close>

text \<open>
  A call of a public method, with the clock readings it makes. \<open>exec_ops\<close> runs a sequence
  of calls and keeps the state. \<open>touches\<close> names the key whose recency a call bumps:
  the key of a \<open>put\<close> that returns, the key of a \<open>get\<close> that finds an unexpired entry.
  \<open>touch_log\<close> lists the keys bumped by a sequence of calls, oldest first.
\<close>

datatype cache_op =
    Put key pyval "int option" time time time
  | Get key time
  | Delete key
  | Clear
  | Size time
  | Stats time

fun exec_op :: "float_add \<Rightarrow> in_memory_cache \<Rightarrow> cache_op \<Rightarrow> in_memory_cache" where
  "exec_op fadd c (Put k v a t1 t2 t3) = snd (put fadd c k v a t1 t2 t3)"
| "exec_op fadd c (Get k now) = snd (get c k now)"
| "exec_op fadd c (Delete k) = snd (delete c k)"
| "exec_op fadd c Clear = clear c"
| "exec_op fadd c (Size now) = snd (size_op c now)"
| "exec_op fadd c (Stats now) = snd (stats c now)"

fun exec_ops :: "float_add \<Rightarrow> in_memory_cache \<Rightarrow> cache_op list \<Rightarrow> in_memory_cache" where
  "exec_ops fadd c [] = c"
| "exec_ops fadd c (x # xs) = exec_ops fadd (exec_op fadd c x) xs"

fun touches :: "float_add \<Rightarrow> in_memory_cache \<Rightarrow> cache_op \<Rightarrow> key option" where
  "touches fadd c (Put k v a t1 t2 t3) =
     (if fst (put fadd c k v a t1 t2 t3) = Inr True then Some k else None)"
| "touches fadd c (Get k now) =
     (case map_of (cache c) k of
        None \<Rightarrow> None
      | Some it \<Rightarrow> if is_expired it now then None else Some k)"
| "touches fadd c (Delete k) = None"
| "touches fadd c Clear = None"
| "touches fadd c (Size now) = None"
| "touches fadd c (Stats now) = None"

fun touch_log :: "float_add \<Rightarrow> in_memory_cache \<Rightarrow> cache_op list \<Rightarrow> key list" where
  "touch_log fadd c [] = []"
| "touch_log fadd c (x # xs) =
     (case touches fadd c x of
        None \<Rightarrow> touch_log fadd (exec_op fadd c x) xs
      | Some k \<Rightarrow> k # touch_log fadd (exec_op fadd c x) xs)"

subsection \<open>The HTTP handlers\<close>

text \<open>
  A request is what the handler reads of it: \<open>request.is_json\<close> (decided by the
  Content-Type) and the result of \<open>request.get_json()\<close>, a Python value or an exception of
  the framework. A response is the pair of the JSON body and the status code. The text of
  \<open>datetime.now().isoformat()\<close> is an input.
\<close>

record request =
  is_json :: bool
  get_json :: "py_error + pyval"

type_synonym response = "pyval \<times> int"

text \<open>\<open>s in data\<close>: key of a dictionary, element of a list, substring of a string.\<close>

fun py_contains :: "string \<Rightarrow> pyval \<Rightarrow> py_error + bool" where
  "py_contains s (PDict d) = Inr (map_of d s \<noteq> None)"
| "py_contains s (PList xs) = Inr (PStr s \<in> set xs)"
| "py_contains s (PStr t) = Inr (sublist s t)"
| "py_contains s PNone = Inl TypeError"
| "py_contains s (PBool b) = Inl TypeError"
| "py_contains s (PInt n) = Inl TypeError"
| "py_contains s (PFloat x) = Inl TypeError"

text \<open>\<open>data[s]\<close> with a string \<open>s\<close>: only a dictionary can be indexed by a string.\<close>

fun py_getitem :: "pyval \<Rightarrow> string \<Rightarrow> py_error + pyval" where
  "py_getitem (PDict d) s = (case map_of d s of None \<Rightarrow> Inl KeyError | Some v \<Rightarrow> Inr v)"
| "py_getitem PNone s = Inl TypeError"
| "py_getitem (PBool b) s = Inl TypeError"
| "py_getitem (PInt n) s = Inl TypeError"
| "py_getitem (PFloat x) s = Inl TypeError"
| "py_getitem (PStr t) s = Inl TypeError"
| "py_getitem (PList xs) s = Inl TypeError"

text \<open>\<open>data.get(s, None)\<close>: a method of dictionaries only.\<close>

fun py_get :: "pyval \<Rightarrow> string \<Rightarrow> py_error + pyval" where
  "py_get (PDict d) s = Inr (case map_of d s of None \<Rightarrow> PNone | Some v \<Rightarrow> v)"
| "py_get PNone s = Inl (Raised ''AttributeError'')"
| "py_get (PBool b) s = Inl (Raised ''AttributeError'')"
| "py_get (PInt n) s = Inl (Raised ''AttributeError'')"
| "py_get (PFloat x) s = Inl (Raised ''AttributeError'')"
| "py_get (PStr t) s = Inl (Raised ''AttributeError'')"
| "py_get (PList xs) s = Inl (Raised ''AttributeError'')"

text \<open>
  \<open>isinstance(x, int)\<close> holds of integers and of booleans (\<open>bool\<close> is a subclass of \<open>int\<close>,
  \<open>True\<close> is 1 and \<open>False\<close> is 0); \<open>as_int\<close> gives the integer such a value stands for and
  \<open>None\<close> for every other value.
\<close>

fun as_int :: "pyval \<Rightarrow> int option" where
  "as_int (PInt n) = Some n"
| "as_int (PBool b) = Some (if b then 1 else 0)"
| "as_int PNone = None"
| "as_int (PFloat x) = None"
| "as_int (PStr t) = None"
| "as_int (PList xs) = None"
| "as_int (PDict d) = None"

text \<open>Truth value of a Python value, as \<open>or\<close> tests it.\<close>

fun truthy :: "pyval \<Rightarrow> bool" where
  "truthy PNone = False"
| "truthy (PBool b) = b"
| "truthy (PInt n) = (n \<noteq> 0)"
| "truthy (PFloat x) = (x \<noteq> 0)"
| "truthy (PStr t) = (t \<noteq> [])"
| "truthy (PList xs) = (xs \<noteq> [])"
| "truthy (PDict d) = (d \<noteq> [])"

definition internal_error :: "(py_error \<Rightarrow> string) \<Rightarrow> py_error \<Rightarrow> response" where
  "internal_error str_exc e =
     (PDict [(''error'', PStr (''Internal server error: '' @ str_exc e))], 500)"

text \<open>The module's cache instance: \<open>InMemoryCache(max_size=1000, default_ttl=3600)\<close>.\<close>

definition app_cache :: in_memory_cache where
  "app_cache = InMemoryCache_init 1000 3600"

text \<open>
  \<open>get_cache_item\<close>: nothing in its \<open>try\<close> block raises in this model, so the handler has no
  500 branch here.
\<close>

definition get_cache_item ::
  "in_memory_cache \<Rightarrow> key \<Rightarrow> time \<Rightarrow> string \<Rightarrow> response \<times> in_memory_cache" where
  "get_cache_item c k now ts =
     (case get c k now of
        (v, c') \<Rightarrow>
          if v = PNone
          then ((PDict [(''error'', PStr ''Key not found or expired''), (''key'', PStr k)], 404), c')
          else ((PDict [(''key'', PStr k), (''value'', v), (''timestamp'', PStr ts)], 200), c'))"

text \<open>
  \<open>put_cache_item\<close>. The value of \<open>ttl\<close> that reaches \<open>cache.put\<close> is \<open>None\<close>, an integer or a
  boolean; \<open>put\<close> computes with the integer it stands for. An exception of \<open>cache.put\<close> is
  caught by the \<open>except\<close> clause like any other.
\<close>

definition put_cache_item ::
  "float_add \<Rightarrow> (py_error \<Rightarrow> string) \<Rightarrow> in_memory_cache \<Rightarrow> request \<Rightarrow> key \<Rightarrow> time \<Rightarrow> time \<Rightarrow> time \<Rightarrow> string
     \<Rightarrow> response \<times> in_memory_cache" where
  "put_cache_item fadd str_exc c req k t1 t2 t3 ts =
     (if \<not> is_json req
      then ((PDict [(''error'', PStr ''Content-Type must be application/json'')], 400), c)
      else
        case get_json req of
          Inl e \<Rightarrow> (internal_error str_exc e, c)
        | Inr data \<Rightarrow>
           (case py_contains ''value'' data of
              Inl e \<Rightarrow> (internal_error str_exc e, c)
            | Inr has_value \<Rightarrow>
               if \<not> has_value
               then ((PDict [(''error'', PStr ''Missing required field: value'')], 400), c)
               else
                 (case py_getitem data ''value'' of
                    Inl e \<Rightarrow> (internal_error str_exc e, c)
                  | Inr v \<Rightarrow>
                     (case py_get data ''ttl'' of
                        Inl e \<Rightarrow> (internal_error str_exc e, c)
                      | Inr ttl0 \<Rightarrow>
                         if ttl0 \<noteq> PNone
                            \<and> (case as_int ttl0 of None \<Rightarrow> True | Some n \<Rightarrow> n < 0)
                         then ((PDict [(''error'',
                                  PStr ''TTL must be a non-negative integer'')], 400), c)
                         else
                           (case put fadd c k v (as_int ttl0) t1 t2 t3 of
                              (Inl e, c') \<Rightarrow> (internal_error str_exc e, c')
                            | (Inr success, c') \<Rightarrow>
                                if success
                                then ((PDict [(''message'', PStr ''Value stored successfully''),
                                        (''key'', PStr k),
                                        (''ttl'', if truthy ttl0 then ttl0
                                                  else PInt (default_ttl c')),
                                        (''timestamp'', PStr ts)], 201), c')
                                else ((PDict [(''error'',
                                         PStr ''Failed to store value'')], 500), c'))))))"

section \<open>Properties\<close>

subsection \<open>Auxiliary facts about the dictionary operations\<close>

lemma fold_delete_filter:
  "fold AList.delete ks xs = filter (\<lambda>(k, v). k \<notin> set ks) xs"
proof (induction ks arbitrary: xs)
  case Nil
  then show ?case by simp
next
  case (Cons a ks)
  have "fold AList.delete (a # ks) xs = fold AList.delete ks (AList.delete a xs)"
    by simp
  also have "\<dots> = filter (\<lambda>(k, v). k \<notin> set ks) (AList.delete a xs)"
    by (rule Cons.IH)
  also have "\<dots> = filter (\<lambda>(k, v). k \<notin> set (a # ks)) xs"
    unfolding AList.delete_eq filter_filter by (rule filter_cong) auto
  finally show ?case .
qed

lemma cache_evict_expired:
  "cache (evict_expired c t) =
     filter (\<lambda>(k, v). k \<notin> set (expired_keys (cache c) t)) (cache c)"
  by (simp add: evict_expired_def fold_delete_filter)

lemma evict_expired_fields [simp]:
  "max_size (evict_expired c t) = max_size c"
  "default_ttl (evict_expired c t) = default_ttl c"
  by (simp_all add: evict_expired_def)

lemma evict_lru_ok: "0 < max_size c \<Longrightarrow> \<exists>c'. evict_lru c = Inr c'"
  by (cases "cache c") (auto simp: evict_lru_def)

lemma update_absent: "map_of xs k = None \<Longrightarrow> AList.update k v xs = xs @ [(k, v)]"
  by (induction xs) (auto split: if_splits)

lemma set_update_absent:
  "map_of xs k = None \<Longrightarrow> set (AList.update k v xs) = insert (k, v) (set xs)"
  by (simp add: update_absent)

lemma map_of_None_notin: "map_of xs k = None \<Longrightarrow> (k, v) \<notin> set xs"
  by (metis map_of_eq_None_iff image_eqI fst_conv)

lemma map_of_filter_keys:
  "k \<notin> S \<Longrightarrow> map_of (filter (\<lambda>(k', v). k' \<notin> S) xs) k = map_of xs k"
  by (induction xs) auto

text \<open>
  When the addition of line 69 raises, \<open>put\<close> raises the same exception and the state is
  untouched. When it does not, and the capacity is positive, \<open>put\<close> returns \<open>True\<close>.
\<close>

lemma put_raises:
  assumes "expiration fadd t1 (effective_ttl c a) = Inl e"
  shows "put fadd c k v a t1 t2 t3 = (Inl e, c)"
  using assms by (simp add: put_def Let_def)

lemma put_returns:
  assumes "0 < max_size c" and "expiration fadd t1 (effective_ttl c a) = Inr x"
  shows "fst (put fadd c k v a t1 t2 t3) = Inr True"
proof -
  obtain c' where "evict_lru (evict_expired c t2) = Inr c'"
    using evict_lru_ok[of "evict_expired c t2"] assms(1) by auto
  then show ?thesis using assms(2) by (simp add: put_def Let_def)
qed

lemma put_returned_expiration:
  assumes "fst (put fadd c k v a t1 t2 t3) = Inr True"
  shows "\<exists>x. expiration fadd t1 (effective_ttl c a) = Inr x"
  using assms
  by (cases "expiration fadd t1 (effective_ttl c a)") (simp_all add: put_def Let_def)

lemma put_lookup:
  assumes "fst (put fadd c k v a t1 t2 t3) = Inr True"
      and "expiration fadd t1 (effective_ttl c a) = Inr x"
  shows "map_of (cache (snd (put fadd c k v a t1 t2 t3))) k =
     Some \<lparr>item_value = v, expiry = map_option (Pair (effective_ttl c a)) x, created_at = t3\<rparr>"
  using assms
  by (auto simp: put_def Let_def AList.update_conv' split: sum.splits if_splits)

lemma put_entries_of_key:
  assumes "fst (put fadd c k v a t1 t2 t3) = Inr True"
      and "(k, it) \<in> set (cache (snd (put fadd c k v a t1 t2 t3)))"
  shows "map_of (cache (snd (put fadd c k v a t1 t2 t3))) k = Some it"
proof -
  let ?c1 = "evict_expired c t2"
  from put_returned_expiration[OF assms(1)] obtain x where
    x: "expiration fadd t1 (effective_ttl c a) = Inr x" by blast
  show ?thesis
  proof (cases "map_of (cache ?c1) k")
    case None
    then obtain c2 where c2: "evict_lru ?c1 = Inr c2"
      using assms(1) x by (auto simp: put_def Let_def split: sum.splits)
    have sub: "set (cache c2) \<subseteq> set (cache ?c1)"
      using c2 by (auto simp: evict_lru_def split: if_splits list.splits)
    have notin: "\<And>w. (k, w) \<notin> set (cache c2)"
      using sub map_of_None_notin[OF None] by blast
    then have abs: "map_of (cache c2) k = None"
      by (metis map_of_SomeD not_Some_eq)
    show ?thesis
      using assms(2) None c2 abs notin x
      by (auto simp: put_def Let_def set_update_absent AList.update_conv')
  next
    case (Some w)
    have abs: "map_of (AList.delete k (cache ?c1)) k = None"
      by (simp add: AList.delete_conv')
    show ?thesis
      using assms(2) Some map_of_None_notin[OF abs] x
      by (auto simp: put_def Let_def set_update_absent[OF abs] AList.update_conv')
  qed
qed

lemma not_in_expired_keys:
  assumes "\<And>it. (k, it) \<in> set xs \<Longrightarrow> \<not> is_expired it now"
  shows "k \<notin> set (expired_keys xs now)"
proof
  assume "k \<in> set (expired_keys xs now)"
  then obtain it where "(k, it) \<in> set xs" "is_expired it now"
    by (auto simp: expired_keys_def is_expired_def)
  with assms show False by blast
qed

lemma evict_expired_keeps:
  assumes "\<And>it. (k, it) \<in> set (cache c) \<Longrightarrow> \<not> is_expired it now"
  shows "map_of (cache (evict_expired c now)) k = map_of (cache c) k"
  by (simp add: cache_evict_expired map_of_filter_keys not_in_expired_keys[OF assms])

subsection \<open>A TTL of zero or less means no expiry\<close>

text \<open>
  C1. When \<open>put\<close> is called with an explicit \<open>ttl \<le> 0\<close> (on a cache of positive capacity) it
  returns \<open>True\<close> and stores the entry with neither \<open>ttl\<close> nor \<open>expires_at\<close>. Such an entry is
  expired at no time: a \<open>get\<close> of the key at any clock reading returns the value, and a sweep
  of expired entries at any clock reading leaves the entry in place.
\<close>

theorem put_nonpositive_ttl_never_expires:
  assumes "0 < max_size c" and "n \<le> 0"
  shows "fst (put fadd c k v (Some n) t1 t2 t3) = Inr True
       \<and> map_of (cache (snd (put fadd c k v (Some n) t1 t2 t3))) k
           = Some \<lparr>item_value = v, expiry = None, created_at = t3\<rparr>
       \<and> (\<forall>now. \<not> is_expired \<lparr>item_value = v, expiry = None, created_at = t3\<rparr> now)
       \<and> (\<forall>now. fst (get (snd (put fadd c k v (Some n) t1 t2 t3)) k now) = v)
       \<and> (\<forall>now. map_of (cache (evict_expired (snd (put fadd c k v (Some n) t1 t2 t3)) now)) k
           = Some \<lparr>item_value = v, expiry = None, created_at = t3\<rparr>)"
proof -
  let ?r = "put fadd c k v (Some n) t1 t2 t3"
  have x: "expiration fadd t1 (effective_ttl c (Some n)) = Inr None"
    using assms(2) by (simp add: expiration_def effective_ttl_def)
  have ret: "fst ?r = Inr True" using assms(1) x by (rule put_returns)
  have look: "map_of (cache (snd ?r)) k = Some \<lparr>item_value = v, expiry = None, created_at = t3\<rparr>"
    using put_lookup[OF ret x] by simp
  have ne: "\<And>now. \<not> is_expired \<lparr>item_value = v, expiry = None, created_at = t3\<rparr> now"
    by (simp add: is_expired_def)
  have g: "\<And>now. fst (get (snd ?r) k now) = v"
    by (simp add: get_def look ne)
  have "\<And>now. map_of (cache (evict_expired (snd ?r) now)) k = map_of (cache (snd ?r)) k"
  proof (rule evict_expired_keeps)
    fix now it assume "(k, it) \<in> set (cache (snd ?r))"
    then have "map_of (cache (snd ?r)) k = Some it" by (rule put_entries_of_key[OF ret])
    with look ne show "\<not> is_expired it now" by simp
  qed
  with ret look ne g show ?thesis by simp
qed

theorem put_nonpositive_ttl_never_expires_witness:
  "fst (put exact_add (InMemoryCache_init 2 3600) ''a'' (PInt 1) (Some 0) 5 5 5) = Inr True
   \<and> fst (get (snd (put exact_add (InMemoryCache_init 2 3600) ''a'' (PInt 1) (Some 0) 5 5 5))
          ''a'' 1000000)
       = PInt 1"
  using put_nonpositive_ttl_never_expires[of "InMemoryCache_init 2 3600" 0 exact_add "''a''"
      "PInt 1" 5 5 5]
  by (simp add: InMemoryCache_init_def)

subsection \<open>What \<open>get\<close> returns\<close>

lemma is_expired_expires_at:
  "is_expired it now \<longleftrightarrow> (\<exists>e. expires_at it = Some e \<and> now > e)"
  by (auto simp: is_expired_def expires_at_def split: option.splits)

lemma ttl_None_iff: "ttl it = None \<longleftrightarrow> expires_at it = None"
  by (simp add: ttl_def expires_at_def)

text \<open>
  C3. \<open>get(key)\<close> on any state, at clock reading \<open>now\<close>:
  \<^item> an absent key is a miss (\<open>None\<close>) and the state is unchanged;
  \<^item> a key whose entry has no expiry, or has \<open>now \<le> expires_at\<close>, returns the stored value and
    stays stored;
  \<^item> a key whose entry has \<open>now > expires_at\<close> is a miss, the key is no longer stored
    afterwards, and every other key keeps its entry;
  \<^item> whenever \<open>get\<close> returns something other than \<open>None\<close>, it is the value of the entry stored
    under the key, and that entry has no expiry or \<open>now \<le> expires_at\<close>.
\<close>

theorem get_serves_only_live_entries:
  "(map_of (cache c) k = None \<longrightarrow> get c k now = (PNone, c))
   \<and> (\<forall>it. map_of (cache c) k = Some it
             \<and> (expires_at it = None \<or> (\<exists>e. expires_at it = Some e \<and> now \<le> e))
         \<longrightarrow> fst (get c k now) = item_value it
             \<and> map_of (cache (snd (get c k now))) k = Some it)
   \<and> (\<forall>it e. map_of (cache c) k = Some it \<and> expires_at it = Some e \<and> now > e
         \<longrightarrow> fst (get c k now) = PNone
             \<and> k \<notin> fst ` set (cache (snd (get c k now)))
             \<and> (\<forall>k'. k' \<noteq> k \<longrightarrow> map_of (cache (snd (get c k now))) k' = map_of (cache c) k'))
   \<and> (fst (get c k now) \<noteq> PNone
         \<longrightarrow> (\<exists>it. map_of (cache c) k = Some it \<and> fst (get c k now) = item_value it
                 \<and> (expires_at it = None \<or> (\<exists>e. expires_at it = Some e \<and> now \<le> e))))"
proof (intro conjI allI impI)
  assume "map_of (cache c) k = None"
  then show "get c k now = (PNone, c)" by (simp add: get_def)
next
  fix it
  assume a: "map_of (cache c) k = Some it
             \<and> (expires_at it = None \<or> (\<exists>e. expires_at it = Some e \<and> now \<le> e))"
  then have ne: "\<not> is_expired it now" by (auto simp: is_expired_expires_at)
  from a ne show "fst (get c k now) = item_value it" by (simp add: get_def)
  have "map_of (AList.delete k (cache c) @ [(k, it)]) k = Some it"
    by (simp add: AList.delete_conv' map_add_def)
  with a ne show "map_of (cache (snd (get c k now))) k = Some it" by (simp add: get_def)
next
  fix it e
  assume a: "map_of (cache c) k = Some it \<and> expires_at it = Some e \<and> now > e"
  then have ex: "is_expired it now" by (auto simp: is_expired_expires_at)
  from a ex show "fst (get c k now) = PNone" by (simp add: get_def)
  from a ex show "k \<notin> fst ` set (cache (snd (get c k now)))"
    by (simp add: get_def AList.delete_notin_dom)
  fix k' assume "k' \<noteq> k"
  with a ex show "map_of (cache (snd (get c k now))) k' = map_of (cache c) k'"
    by (simp add: get_def)
next
  assume r: "fst (get c k now) \<noteq> PNone"
  then obtain it where it: "map_of (cache c) k = Some it"
    by (cases "map_of (cache c) k") (auto simp: get_def)
  with r have ne: "\<not> is_expired it now" by (auto simp: get_def split: if_splits)
  then have "expires_at it = None \<or> (\<exists>e. expires_at it = Some e \<and> now \<le> e)"
    by (cases "expires_at it") (auto simp: is_expired_expires_at)
  moreover from it ne have "fst (get c k now) = item_value it" by (simp add: get_def)
  ultimately show "\<exists>it. map_of (cache c) k = Some it \<and> fst (get c k now) = item_value it
                 \<and> (expires_at it = None \<or> (\<exists>e. expires_at it = Some e \<and> now \<le> e))"
    using it by blast
qed

theorem get_serves_only_live_entries_witness:
  "fst (get \<lparr>max_size = 2, default_ttl = 3600,
         cache = [(''a'', \<lparr>item_value = PInt 1, expiry = Some (10, 10), created_at = 0\<rparr>)]\<rparr>
        ''a'' 10) = PInt 1
   \<and> get \<lparr>max_size = 2, default_ttl = 3600,
         cache = [(''a'', \<lparr>item_value = PInt 1, expiry = Some (10, 10), created_at = 0\<rparr>)]\<rparr>
        ''a'' 11 = (PNone, \<lparr>max_size = 2, default_ttl = 3600, cache = []\<rparr>)
   \<and> get \<lparr>max_size = 2, default_ttl = 3600,
         cache = [(''a'', \<lparr>item_value = PInt 1, expiry = Some (10, 10), created_at = 0\<rparr>)]\<rparr>
        ''b'' 11 = (PNone, \<lparr>max_size = 2, default_ttl = 3600,
         cache = [(''a'', \<lparr>item_value = PInt 1, expiry = Some (10, 10), created_at = 0\<rparr>)]\<rparr>)"
  using get_serves_only_live_entries[of
      "\<lparr>max_size = 2, default_ttl = 3600,
         cache = [(''a'', \<lparr>item_value = PInt 1, expiry = Some (10, 10), created_at = 0\<rparr>)]\<rparr>"
      "''a''" 10]
    get_serves_only_live_entries[of
      "\<lparr>max_size = 2, default_ttl = 3600,
         cache = [(''a'', \<lparr>item_value = PInt 1, expiry = Some (10, 10), created_at = 0\<rparr>)]\<rparr>"
      "''a''" 11]
    get_serves_only_live_entries[of
      "\<lparr>max_size = 2, default_ttl = 3600,
         cache = [(''a'', \<lparr>item_value = PInt 1, expiry = Some (10, 10), created_at = 0\<rparr>)]\<rparr>"
      "''b''" 11]
  by (simp add: expires_at_def get_def is_expired_def)

subsection \<open>\<open>size\<close> and \<open>stats\<close>\<close>

lemma in_expired_keys_iff:
  "k \<in> set (expired_keys xs now) \<longleftrightarrow> (\<exists>it. (k, it) \<in> set xs \<and> is_expired it now)"
  by (force simp: expired_keys_def is_expired_def)

lemma evict_expired_all_live:
  assumes "(k, it) \<in> set (cache (evict_expired c now))"
  shows "\<not> is_expired it now"
proof
  assume e: "is_expired it now"
  from assms have "(k, it) \<in> set (cache c)" and "k \<notin> set (expired_keys (cache c) now)"
    by (auto simp: cache_evict_expired)
  with e show False by (auto simp: in_expired_keys_iff)
qed

lemma evict_expired_distinct_filter:
  assumes "distinct (map fst (cache c))"
  shows "cache (evict_expired c now) = filter (\<lambda>(k, it). \<not> is_expired it now) (cache c)"
  unfolding cache_evict_expired
proof (rule filter_cong[OF refl])
  fix x assume x: "x \<in> set (cache c)"
  obtain k it where [simp]: "x = (k, it)" by (cases x)
  have "k \<in> set (expired_keys (cache c) now) \<longleftrightarrow> is_expired it now"
  proof
    assume "k \<in> set (expired_keys (cache c) now)"
    then obtain it' where "(k, it') \<in> set (cache c)" "is_expired it' now"
      by (auto simp: in_expired_keys_iff)
    moreover have "it' = it"
      using assms x \<open>(k, it') \<in> set (cache c)\<close> by (simp add: eq_key_imp_eq_value)
    ultimately show "is_expired it now" by simp
  next
    assume "is_expired it now"
    with x show "k \<in> set (expired_keys (cache c) now)" by (auto simp: in_expired_keys_iff)
  qed
  then show "(case x of (k, v) \<Rightarrow> k \<notin> set (expired_keys (cache c) now))
           = (case x of (k, it) \<Rightarrow> \<not> is_expired it now)" by simp
qed

lemma evict_expired_idem: "evict_expired (evict_expired c now) now = evict_expired c now"
proof -
  have "expired_keys (cache (evict_expired c now)) now = []"
  proof (rule ccontr)
    assume "expired_keys (cache (evict_expired c now)) now \<noteq> []"
    then obtain k where "k \<in> set (expired_keys (cache (evict_expired c now)) now)"
      by (cases "expired_keys (cache (evict_expired c now)) now") auto
    then show False using evict_expired_all_live by (auto simp: in_expired_keys_iff)
  qed
  then show ?thesis by (simp add: evict_expired_def[of "evict_expired c now"])
qed

text \<open>
  C8. In any state and at any clock reading, \<open>stats()['size']\<close> is the number \<open>size()\<close>
  returns, and the two calls leave the same state behind: the state after the same sweep.
  No entry left by the sweep is expired, so neither number counts an expired entry. Calling one
  after the other at the same clock reading gives the same number again. When the keys of the
  store are distinct (as they are in a dictionary) the number is the number of unexpired
  entries.
\<close>

theorem stats_size_consistent:
  "map_of (fst (stats c now)) ''size'' = Some (PInt (fst (size_op c now)))
   \<and> snd (stats c now) = evict_expired c now
   \<and> snd (size_op c now) = evict_expired c now
   \<and> fst (size_op c now) = int (length (cache (evict_expired c now)))
   \<and> (\<forall>(k, it) \<in> set (cache (evict_expired c now)). \<not> is_expired it now)
   \<and> fst (size_op (snd (stats c now)) now) = fst (size_op c now)
   \<and> map_of (fst (stats (snd (size_op c now)) now)) ''size'' = Some (PInt (fst (size_op c now)))
   \<and> (distinct (map fst (cache c)) \<longrightarrow>
        fst (size_op c now)
          = int (length (filter (\<lambda>(k, it). \<not> is_expired it now) (cache c))))"
proof -
  have 1: "\<forall>(k, it) \<in> set (cache (evict_expired c now)). \<not> is_expired it now"
    using evict_expired_all_live by blast
  have 2: "distinct (map fst (cache c)) \<longrightarrow>
        fst (size_op c now)
          = int (length (filter (\<lambda>(k, it). \<not> is_expired it now) (cache c)))"
    by (simp add: size_op_def Let_def evict_expired_distinct_filter)
  show ?thesis
    using 1 2 by (simp add: stats_def size_op_def Let_def evict_expired_idem)
qed

theorem stats_size_consistent_witness:
  "fst (size_op \<lparr>max_size = 2, default_ttl = 3600,
         cache = [(''a'', \<lparr>item_value = PInt 1, expiry = Some (10, 10), created_at = 0\<rparr>),
                  (''b'', \<lparr>item_value = PInt 2, expiry = None, created_at = 0\<rparr>)]\<rparr> 11) = 1
   \<and> map_of (fst (stats \<lparr>max_size = 2, default_ttl = 3600,
         cache = [(''a'', \<lparr>item_value = PInt 1, expiry = Some (10, 10), created_at = 0\<rparr>),
                  (''b'', \<lparr>item_value = PInt 2, expiry = None, created_at = 0\<rparr>)]\<rparr> 11)) ''size''
       = Some (PInt 1)"
  using stats_size_consistent[of "\<lparr>max_size = 2, default_ttl = 3600,
         cache = [(''a'', \<lparr>item_value = PInt 1, expiry = Some (10, 10), created_at = 0\<rparr>),
                  (''b'', \<lparr>item_value = PInt 2, expiry = None, created_at = 0\<rparr>)]\<rparr>" 11]
  by (simp add: is_expired_def)

subsection \<open>The capacity bound\<close>

lemma length_evict_expired_le: "length (cache (evict_expired c t)) \<le> length (cache c)"
  by (simp add: cache_evict_expired)

lemma put_fields [simp]:
  "max_size (snd (put fadd c k v a t1 t2 t3)) = max_size c"
  "default_ttl (snd (put fadd c k v a t1 t2 t3)) = default_ttl c"
  by (auto simp: put_def Let_def evict_lru_def split: sum.splits if_splits list.splits)

lemma length_delete_present:
  "map_of xs k \<noteq> None \<Longrightarrow> length (AList.delete k xs) < length xs"
  by (induction xs) (auto simp: le_imp_less_Suc AList.length_delete_le split: if_splits)

lemma put_length_le:
  assumes "0 < max_size c" and "int (length (cache c)) \<le> max_size c"
  shows "int (length (cache (snd (put fadd c k v a t1 t2 t3)))) \<le> max_size c"
proof (cases "expiration fadd t1 (effective_ttl c a)")
  case (Inl e)
  then show ?thesis using assms(2) by (simp add: put_raises)
next
  case (Inr x)
  let ?sw = "evict_expired c t2"
  have sw: "int (length (cache ?sw)) \<le> max_size c"
    using assms(2) length_evict_expired_le[of c t2] by linarith
  show ?thesis
  proof (cases "map_of (cache ?sw) k")
    case None
    show ?thesis
    proof (cases "cache ?sw")
      case Nil
      with None assms(1) Inr show ?thesis
        by (simp add: put_def Let_def evict_lru_def)
    next
      case (Cons y ys)
      with None have "map_of ys k = None" by (cases y) (auto split: if_splits)
      with None Cons sw Inr show ?thesis
        by (simp add: put_def Let_def evict_lru_def update_absent)
    qed
  next
    case (Some w)
    then have lt: "length (AList.delete k (cache ?sw)) < length (cache ?sw)"
      by (intro length_delete_present) simp
    have "map_of (AList.delete k (cache ?sw)) k = None" by (simp add: AList.delete_conv')
    with Some lt sw Inr show ?thesis
      by (simp add: put_def Let_def update_absent)
  qed
qed

lemma exec_op_max_size [simp]: "max_size (exec_op fadd c x) = max_size c"
  by (cases x) (auto simp: get_def delete_def clear_def size_op_def stats_def Let_def
       split: option.splits)

lemma exec_ops_max_size [simp]: "max_size (exec_ops fadd c xs) = max_size c"
  by (induction xs arbitrary: c) auto

lemma exec_op_length_le:
  assumes "0 < max_size c" and "int (length (cache c)) \<le> max_size c"
  shows "int (length (cache (exec_op fadd c x))) \<le> max_size c"
proof (cases x)
  case (Put k v a t1 t2 t3)
  then show ?thesis using put_length_le[OF assms] by simp
next
  case (Get k now)
  have "length (AList.delete k (cache c)) \<le> length (cache c)" by (rule AList.length_delete_le)
  moreover have "map_of (cache c) k \<noteq> None \<Longrightarrow> length (AList.delete k (cache c)) < length (cache c)"
    by (rule length_delete_present)
  ultimately show ?thesis using Get assms(2)
    by (auto simp: get_def split: option.splits)
next
  case (Delete k)
  have "length (AList.delete k (cache c)) \<le> length (cache c)" by (rule AList.length_delete_le)
  then show ?thesis using Delete assms(2) by (auto simp: delete_def)
next
  case Clear
  then show ?thesis using assms(1) by (simp add: clear_def)
next
  case (Size now)
  then show ?thesis using assms(2) length_evict_expired_le[of c now]
    by (simp add: size_op_def Let_def)
next
  case (Stats now)
  then show ?thesis using assms(2) length_evict_expired_le[of c now]
    by (simp add: stats_def Let_def)
qed

lemma exec_ops_length_le:
  assumes "0 < max_size c" and "int (length (cache c)) \<le> max_size c"
  shows "int (length (cache (exec_ops fadd c xs))) \<le> max_size c"
  using assms
proof (induction xs arbitrary: c)
  case Nil
  then show ?case by simp
next
  case (Cons x xs)
  have "int (length (cache (exec_ops fadd (exec_op fadd c x) xs))) \<le> max_size (exec_op fadd c x)"
    by (rule Cons.IH) (use Cons.prems exec_op_length_le in simp_all)
  then show ?case by simp
qed

lemma put_new_key_at_capacity:
  assumes "0 < max_size c"
      and "expiration fadd t1 (effective_ttl c a) = Inr x"
      and "map_of (cache (evict_expired c t2)) k = None"
      and "int (length (cache (evict_expired c t2))) \<ge> max_size c"
  shows "cache (evict_expired c t2) \<noteq> []
       \<and> cache (snd (put fadd c k v a t1 t2 t3))
           = tl (cache (evict_expired c t2)) @
             [(k, \<lparr>item_value = v, expiry = map_option (Pair (effective_ttl c a)) x,
                   created_at = t3\<rparr>)]"
proof -
  let ?sw = "evict_expired c t2"
  from assms(1,4) obtain y ys where Cons: "cache ?sw = y # ys" by (cases "cache ?sw") auto
  with assms(3) have "map_of ys k = None" by (cases y) (auto split: if_splits)
  with Cons assms show ?thesis
    by (simp add: put_def Let_def evict_lru_def update_absent)
qed

subsection \<open>The recency order\<close>

lemma put_last:
  assumes "fst (put fadd c k v a t1 t2 t3) = Inr True"
  shows "cache (snd (put fadd c k v a t1 t2 t3)) \<noteq> []
       \<and> fst (last (cache (snd (put fadd c k v a t1 t2 t3)))) = k
       \<and> item_value (snd (last (cache (snd (put fadd c k v a t1 t2 t3))))) = v"
proof -
  let ?c1 = "evict_expired c t2"
  from put_returned_expiration[OF assms] obtain x where
    x: "expiration fadd t1 (effective_ttl c a) = Inr x" by blast
  show ?thesis
  proof (cases "map_of (cache ?c1) k")
    case None
    then obtain c2 where c2: "evict_lru ?c1 = Inr c2"
      using assms x by (auto simp: put_def Let_def split: sum.splits)
    have "set (cache c2) \<subseteq> set (cache ?c1)"
      using c2 by (auto simp: evict_lru_def split: if_splits list.splits)
    then have "\<And>w. (k, w) \<notin> set (cache c2)"
      using map_of_None_notin[OF None] by blast
    then have "map_of (cache c2) k = None"
      by (metis map_of_SomeD not_Some_eq)
    with None c2 x show ?thesis
      by (simp add: put_def Let_def update_absent)
  next
    case (Some w)
    have "map_of (AList.delete k (cache ?c1)) k = None"
      by (simp add: AList.delete_conv')
    with Some x show ?thesis
      by (simp add: put_def Let_def update_absent)
  qed
qed

lemma get_hit_last:
  assumes "map_of (cache c) k = Some it" and "\<not> is_expired it now"
  shows "cache (snd (get c k now)) \<noteq> [] \<and> last (cache (snd (get c k now))) = (k, it)"
  using assms by (simp add: get_def)

lemma keys_filter: "map fst (filter (\<lambda>(k, v). P k) xs) = filter P (map fst xs)"
  by (induction xs) auto

lemma keys_delete: "map fst (AList.delete k xs) = filter (\<lambda>k'. k' \<noteq> k) (map fst xs)"
  by (induction xs) auto

lemma keys_evict_expired:
  "map fst (cache (evict_expired c t))
     = filter (\<lambda>k. k \<notin> set (expired_keys (cache c) t)) (map fst (cache c))"
  by (simp add: cache_evict_expired keys_filter)

lemma distinct_tl_filter:
  assumes "distinct (y # ys)"
  shows "ys = filter (\<lambda>k. k \<noteq> y) (y # ys)"
proof -
  have "filter (\<lambda>k. k \<noteq> y) ys = ys" by (rule filter_True) (use assms in auto)
  then show ?thesis by simp
qed

text \<open>A call that bumps no key only removes keys: it keeps the order of those that stay.\<close>

lemma untouched_op_keys:
  assumes "touches fadd c x = None"
  shows "\<exists>T. map fst (cache (exec_op fadd c x)) = filter (\<lambda>k. k \<notin> T) (map fst (cache c))"
proof (cases x)
  case (Put k v a t1 t2 t3)
  with assms have nt: "fst (put fadd c k v a t1 t2 t3) \<noteq> Inr True" by (simp split: if_splits)
  show ?thesis
  proof (cases "expiration fadd t1 (effective_ttl c a)")
    case (Inl e)
    then have "map fst (cache (exec_op fadd c x)) = filter (\<lambda>k. k \<notin> {}) (map fst (cache c))"
      using Put by (simp add: put_raises)
    then show ?thesis by blast
  next
    case (Inr y)
    with nt have "snd (put fadd c k v a t1 t2 t3) = evict_expired c t2"
      by (auto simp: put_def Let_def split: sum.splits)
    with Put show ?thesis by (auto simp: keys_evict_expired)
  qed
next
  case (Get k now)
  show ?thesis
  proof (cases "map_of (cache c) k")
    case None
    with Get have "map fst (cache (exec_op fadd c x)) = filter (\<lambda>k. k \<notin> {}) (map fst (cache c))"
      by (simp add: get_def)
    then show ?thesis by blast
  next
    case (Some it)
    with Get assms have "is_expired it now" by (simp split: if_splits)
    with Get Some have "map fst (cache (exec_op fadd c x))
        = filter (\<lambda>k'. k' \<notin> {k}) (map fst (cache c))"
      by (simp add: get_def keys_delete)
    then show ?thesis by blast
  qed
next
  case (Delete k)
  have "map_of (cache c) k = None \<Longrightarrow> filter (\<lambda>k'. k' \<noteq> k) (map fst (cache c)) = map fst (cache c)"
    by (auto simp: filter_id_conv map_of_eq_None_iff)
  with Delete have "map fst (cache (exec_op fadd c x))
      = filter (\<lambda>k'. k' \<notin> {k}) (map fst (cache c))"
    by (cases "map_of (cache c) k") (simp_all add: delete_def keys_delete)
  then show ?thesis by blast
next
  case Clear
  then have "map fst (cache (exec_op fadd c x)) = filter (\<lambda>k. k \<notin> UNIV) (map fst (cache c))"
    by (simp add: clear_def)
  then show ?thesis by blast
next
  case (Size now)
  then show ?thesis by (auto simp: size_op_def Let_def keys_evict_expired)
next
  case (Stats now)
  then show ?thesis by (auto simp: stats_def Let_def keys_evict_expired)
qed

text \<open>
  A call that bumps a key removes keys, keeps the order of those that stay, and puts the
  bumped key behind them.
\<close>

lemma put_keys:
  assumes "distinct (map fst (cache c))" and "fst (put fadd c k v a t1 t2 t3) = Inr True"
  shows "\<exists>T. map fst (cache (snd (put fadd c k v a t1 t2 t3)))
              = filter (\<lambda>k'. k' \<notin> T \<and> k' \<noteq> k) (map fst (cache c)) @ [k]"
proof -
  let ?c1 = "evict_expired c t2"
  let ?E = "set (expired_keys (cache c) t2)"
  from put_returned_expiration[OF assms(2)] obtain x where
    x: "expiration fadd t1 (effective_ttl c a) = Inr x" by blast
  have k1: "map fst (cache ?c1) = filter (\<lambda>k. k \<notin> ?E) (map fst (cache c))"
    by (rule keys_evict_expired)
  have d1: "distinct (map fst (cache ?c1))" unfolding k1 using assms(1) by simp
  show ?thesis
  proof (cases "map_of (cache ?c1) k")
    case (Some w)
    have abs: "map_of (AList.delete k (cache ?c1)) k = None" by (simp add: AList.delete_conv')
    have "map fst (cache (snd (put fadd c k v a t1 t2 t3)))
            = filter (\<lambda>k'. k' \<noteq> k) (map fst (cache ?c1)) @ [k]"
      using Some x by (simp add: put_def Let_def update_absent[OF abs] keys_delete)
    also have "\<dots> = filter (\<lambda>k'. k' \<notin> ?E \<and> k' \<noteq> k) (map fst (cache c)) @ [k]"
      unfolding k1 filter_filter by (simp add: conj_commute)
    finally show ?thesis by blast
  next
    case None
    then have kn: "k \<notin> set (map fst (cache ?c1))" by (simp add: map_of_eq_None_iff)
    then have same: "filter (\<lambda>k'. k' \<noteq> k) (map fst (cache ?c1)) = map fst (cache ?c1)"
      by (auto simp: filter_id_conv)
    show ?thesis
    proof (cases "int (length (cache ?c1)) \<ge> max_size c")
      case False
      then have "map fst (cache (snd (put fadd c k v a t1 t2 t3))) = map fst (cache ?c1) @ [k]"
        using None x by (simp add: put_def Let_def evict_lru_def update_absent)
      also have "\<dots> = filter (\<lambda>k'. k' \<notin> ?E \<and> k' \<noteq> k) (map fst (cache c)) @ [k]"
        using same unfolding k1 filter_filter by (simp add: conj_commute)
      finally show ?thesis by blast
    next
      case True
      with None x assms(2) obtain y ys where Cons: "cache ?c1 = y # ys"
        by (cases "cache ?c1") (auto simp: put_def Let_def evict_lru_def)
      with None have absys: "map_of ys k = None" by (cases y) (auto split: if_splits)
      have "map fst ys = filter (\<lambda>k'. k' \<noteq> fst y) (map fst (cache ?c1))"
        using d1 distinct_tl_filter[of "fst y" "map fst ys"] by (simp add: Cons)
      also have "\<dots> = filter (\<lambda>k'. k' \<noteq> k) (filter (\<lambda>k'. k' \<noteq> fst y) (map fst (cache ?c1)))"
        unfolding filter_filter using kn by (intro filter_cong) auto
      also have "\<dots> = filter (\<lambda>k'. k' \<notin> ?E \<union> {fst y} \<and> k' \<noteq> k) (map fst (cache c))"
        unfolding k1 filter_filter by (rule filter_cong) auto
      finally have ys: "map fst ys
          = filter (\<lambda>k'. k' \<notin> ?E \<union> {fst y} \<and> k' \<noteq> k) (map fst (cache c))" .
      have "map fst (cache (snd (put fadd c k v a t1 t2 t3))) = map fst ys @ [k]"
        using None x True Cons absys by (simp add: put_def Let_def evict_lru_def update_absent)
      then have "map fst (cache (snd (put fadd c k v a t1 t2 t3)))
          = filter (\<lambda>k'. k' \<notin> ?E \<union> {fst y} \<and> k' \<noteq> k) (map fst (cache c)) @ [k]"
        by (simp only: ys)
      then show ?thesis by (rule exI)
    qed
  qed
qed

lemma touched_op_keys:
  assumes "distinct (map fst (cache c))" and "touches fadd c x = Some k"
  shows "\<exists>T. map fst (cache (exec_op fadd c x))
              = filter (\<lambda>k'. k' \<notin> T \<and> k' \<noteq> k) (map fst (cache c)) @ [k]"
proof (cases x)
  case (Put k' v a t1 t2 t3)
  with assms(2) have "k' = k" "fst (put fadd c k v a t1 t2 t3) = Inr True"
    by (auto split: if_splits)
  with Put put_keys[OF assms(1), of fadd k v a t1 t2 t3] show ?thesis by simp
next
  case (Get k' now)
  with assms(2) obtain it where "k' = k" "map_of (cache c) k = Some it" "\<not> is_expired it now"
    by (auto split: option.splits if_splits)
  with Get have "map fst (cache (exec_op fadd c x))
      = filter (\<lambda>k'. k' \<notin> {} \<and> k' \<noteq> k) (map fst (cache c)) @ [k]"
    by (simp add: get_def keys_delete)
  then show ?thesis by blast
qed (use assms(2) in simp_all)

text \<open>
  \<open>remdups\<close> keeps the last occurrence of every element: \<open>remdups bumps\<close> lists the bumped
  keys in the order of their most recent bump.
\<close>

lemma remdups_app:
  "remdups (xs @ ys) = filter (\<lambda>x. x \<notin> set ys) (remdups xs) @ remdups ys"
  by (induction xs) auto

lemma remdups_snoc: "remdups (xs @ [k]) = filter (\<lambda>x. x \<noteq> k) (remdups xs) @ [k]"
  by (simp add: remdups_app)

lemma exec_op_recency:
  assumes "map fst (cache c) = filter P (remdups bumps)"
  shows "\<exists>Q. map fst (cache (exec_op fadd c x))
             = filter Q (remdups (bumps @ touch_log fadd c [x]))"
proof (cases "touches fadd c x")
  case None
  from untouched_op_keys[OF None] obtain T where
    "map fst (cache (exec_op fadd c x)) = filter (\<lambda>k. k \<notin> T) (map fst (cache c))" by blast
  then have "map fst (cache (exec_op fadd c x)) = filter (\<lambda>k. P k \<and> k \<notin> T) (remdups bumps)"
    unfolding assms filter_filter by (simp add: conj_commute)
  with None show ?thesis by auto
next
  case (Some k)
  have d: "distinct (map fst (cache c))" unfolding assms by simp
  from touched_op_keys[OF d Some] obtain T where
    "map fst (cache (exec_op fadd c x))
       = filter (\<lambda>k'. k' \<notin> T \<and> k' \<noteq> k) (map fst (cache c)) @ [k]" by blast
  then have "map fst (cache (exec_op fadd c x))
       = filter (\<lambda>k'. k' = k \<or> (P k' \<and> k' \<notin> T)) (remdups (bumps @ [k]))"
    unfolding assms remdups_snoc filter_filter filter_append
    by (simp add: conj_commute) (rule filter_cong, auto)
  with Some show ?thesis by auto
qed

lemma touch_log_Cons:
  "touch_log fadd c (x # xs) = touch_log fadd c [x] @ touch_log fadd (exec_op fadd c x) xs"
  by (simp split: option.splits)

lemma exec_ops_recency:
  assumes "map fst (cache c) = filter P (remdups bumps)"
  shows "\<exists>Q. map fst (cache (exec_ops fadd c xs))
             = filter Q (remdups (bumps @ touch_log fadd c xs))"
  using assms
proof (induction xs arbitrary: c bumps P)
  case Nil
  then show ?case by auto
next
  case (Cons x xs)
  from exec_op_recency[OF Cons.prems, of fadd x] obtain Q where
    Q: "map fst (cache (exec_op fadd c x)) = filter Q (remdups (bumps @ touch_log fadd c [x]))"
    by blast
  from Cons.IH[OF Q] show ?case
    by (simp only: exec_ops.simps touch_log_Cons[of fadd c x xs] append_assoc)
qed

lemma filter_remdups_stored:
  assumes "ks = filter P (remdups bumps)"
  shows "ks = filter (\<lambda>k. k \<in> set ks) (remdups bumps)"
  unfolding assms by (rule filter_cong) auto

text \<open>
  In a sublist of \<open>remdups bumps\<close>, no element occurs in \<open>bumps\<close> after the last occurrence of the
  last one, and every element but the first occurs in \<open>bumps\<close> after the last occurrence of the
  first one.
\<close>

lemma filter_remdups_last:
  assumes "ks = filter P (remdups bumps)" and "ks \<noteq> []"
  shows "\<exists>pre post. bumps = pre @ last ks # post \<and> (\<forall>k \<in> set ks. k \<notin> set post)"
proof -
  have "last ks \<in> set ks" using assms(2) by simp
  then have Pl: "P (last ks)" and "last ks \<in> set bumps" unfolding assms(1) by auto
  then obtain pre post where bumps: "bumps = pre @ last ks # post" and np: "last ks \<notin> set post"
    by (meson split_list_last)
  let ?A = "filter P (filter (\<lambda>x. x \<notin> set (last ks # post)) (remdups pre))"
  have ks: "ks = ?A @ last ks # filter P (remdups post)"
    using np Pl by (subst assms(1)) (simp add: bumps remdups_app)
  have "filter P (remdups post) = []"
  proof (rule ccontr)
    assume ne: "filter P (remdups post) \<noteq> []"
    have "last ks = last (?A @ last ks # filter P (remdups post))" using ks by simp
    also have "\<dots> = last (filter P (remdups post))" using ne by simp
    also have "\<dots> \<in> set (filter P (remdups post))" using ne by (rule last_in_set)
    finally show False using np by simp
  qed
  then have "\<forall>x \<in> set post. \<not> P x" by (simp add: filter_empty_conv)
  moreover have "\<forall>k \<in> set ks. P k" unfolding assms(1) by simp
  ultimately have "\<forall>k \<in> set ks. k \<notin> set post" by blast
  with bumps show ?thesis by blast
qed

lemma filter_remdups_hd:
  assumes "ks = filter P (remdups bumps)" and "ks \<noteq> []"
  shows "\<exists>pre post. bumps = pre @ hd ks # post \<and> hd ks \<notin> set post
           \<and> (\<forall>k \<in> set ks. k \<noteq> hd ks \<longrightarrow> k \<in> set post)"
proof -
  have "hd ks \<in> set ks" using assms(2) by simp
  then have Ph: "P (hd ks)" and "hd ks \<in> set bumps" unfolding assms(1) by auto
  then obtain pre post where bumps: "bumps = pre @ hd ks # post" and np: "hd ks \<notin> set post"
    by (meson split_list_last)
  let ?A = "filter P (filter (\<lambda>x. x \<notin> set (hd ks # post)) (remdups pre))"
  have ks: "ks = ?A @ hd ks # filter P (remdups post)"
    using np Ph by (subst assms(1)) (simp add: bumps remdups_app)
  have "?A = []"
  proof (rule ccontr)
    assume ne: "?A \<noteq> []"
    have "hd ks = hd (?A @ hd ks # filter P (remdups post))" using ks by simp
    also have "\<dots> = hd ?A" using ne by simp
    also have "\<dots> \<in> set ?A" using ne by (rule hd_in_set)
    finally show False by simp
  qed
  with ks have "ks = hd ks # filter P (remdups post)" by simp
  then have "set ks \<subseteq> insert (hd ks) (set post)"
    by (metis filter_is_subset set_remdups set_simps(2) insert_mono)
  with bumps np show ?thesis by blast
qed

lemma init_recency:
  "\<exists>Q. map fst (cache (exec_ops fadd (InMemoryCache_init m d) xs))
        = filter Q (remdups (touch_log fadd (InMemoryCache_init m d) xs))"
proof -
  have "map fst (cache (InMemoryCache_init m d)) = filter (\<lambda>k. False) (remdups [])"
    by (simp add: InMemoryCache_init_def)
  from exec_ops_recency[OF this, of fadd xs] show ?thesis by simp
qed

subsection \<open>Capacity and eviction\<close>

text \<open>
  C2. Take a cache constructed with a positive \<open>max_size\<close> and any sequence of calls of its
  public methods, then one more \<open>put\<close>. After the \<open>put\<close> the store holds at most \<open>max_size\<close>
  entries. The \<open>put\<close> returns \<open>True\<close> exactly when the addition of line 69 does not raise; when
  it raises, \<open>put\<close> raises and the store is untouched. When the \<open>put\<close> returns, its key is new
  (after the sweep of expired entries) and the swept store is at capacity, then the store is
  not empty and exactly its first entry is removed: the entries after the \<open>put\<close> are the swept
  entries without the first, followed by the new entry, so the number of entries is that of
  the swept store. The key removed is the least recently used one: every other stored key
  has been bumped, by a \<open>put\<close> or a successful \<open>get\<close>, after the most recent bump of the key
  removed.
\<close>

theorem put_within_capacity:
  assumes "0 < m"
  shows "let c = exec_ops fadd (InMemoryCache_init m d) ops;
             bumps = touch_log fadd (InMemoryCache_init m d) ops;
             sw = evict_expired c t2;
             r = put fadd c k v a t1 t2 t3
         in int (length (cache (snd r))) \<le> m
          \<and> (fst r = Inr True \<longleftrightarrow> (\<exists>x. expiration fadd t1 (effective_ttl c a) = Inr x))
          \<and> (\<forall>e. expiration fadd t1 (effective_ttl c a) = Inl e \<longrightarrow> r = (Inl e, c))
          \<and> (fst r = Inr True \<and> map_of (cache sw) k = None \<and> int (length (cache sw)) \<ge> m \<longrightarrow>
               cache sw \<noteq> []
             \<and> map fst (cache (snd r)) = tl (map fst (cache sw)) @ [k]
             \<and> butlast (cache (snd r)) = tl (cache sw)
             \<and> length (cache (snd r)) = length (cache sw)
             \<and> (\<exists>pre post. bumps = pre @ fst (hd (cache sw)) # post
                    \<and> fst (hd (cache sw)) \<notin> set post
                    \<and> (\<forall>k' \<in> fst ` set (cache sw). k' \<noteq> fst (hd (cache sw)) \<longrightarrow> k' \<in> set post)))"
proof -
  let ?c = "exec_ops fadd (InMemoryCache_init m d) ops"
  let ?bumps = "touch_log fadd (InMemoryCache_init m d) ops"
  let ?sw = "evict_expired ?c t2"
  let ?r = "put fadd ?c k v a t1 t2 t3"
  have m: "max_size ?c = m" by (simp add: InMemoryCache_init_def)
  have inv: "int (length (cache ?c)) \<le> m"
    using exec_ops_length_le[of "InMemoryCache_init m d" fadd ops] assms
    by (simp add: InMemoryCache_init_def)
  have 1: "int (length (cache (snd ?r))) \<le> m"
    using put_length_le[of ?c fadd k v a t1 t2 t3] m inv assms by simp
  have 2: "fst ?r = Inr True \<longleftrightarrow> (\<exists>x. expiration fadd t1 (effective_ttl ?c a) = Inr x)"
  proof
    assume "fst ?r = Inr True"
    then show "\<exists>x. expiration fadd t1 (effective_ttl ?c a) = Inr x"
      by (rule put_returned_expiration)
  next
    assume "\<exists>x. expiration fadd t1 (effective_ttl ?c a) = Inr x"
    then obtain x where x: "expiration fadd t1 (effective_ttl ?c a) = Inr x" by blast
    have "0 < max_size ?c" by (simp only: m assms)
    then show "fst ?r = Inr True" using x by (rule put_returns)
  qed
  have 3: "\<forall>e. expiration fadd t1 (effective_ttl ?c a) = Inl e \<longrightarrow> ?r = (Inl e, ?c)"
    by (simp add: put_raises)
  have 4: "cache ?sw \<noteq> []
             \<and> map fst (cache (snd ?r)) = tl (map fst (cache ?sw)) @ [k]
             \<and> butlast (cache (snd ?r)) = tl (cache ?sw)
             \<and> length (cache (snd ?r)) = length (cache ?sw)
             \<and> (\<exists>pre post. ?bumps = pre @ fst (hd (cache ?sw)) # post
                    \<and> fst (hd (cache ?sw)) \<notin> set post
                    \<and> (\<forall>k' \<in> fst ` set (cache ?sw). k' \<noteq> fst (hd (cache ?sw)) \<longrightarrow> k' \<in> set post))"
    if ret: "fst ?r = Inr True" and new: "map_of (cache ?sw) k = None"
      and full: "int (length (cache ?sw)) \<ge> m"
  proof -
    from put_returned_expiration[OF ret] obtain x where
      x: "expiration fadd t1 (effective_ttl ?c a) = Inr x" by blast
    have pos: "0 < max_size ?c" by (simp only: m assms)
    have full': "int (length (cache ?sw)) \<ge> max_size ?c" using full by (simp only: m)
    from put_new_key_at_capacity[OF pos x new full', of v t3]
    have ne: "cache ?sw \<noteq> []"
      and eq: "cache (snd ?r) = tl (cache ?sw) @
             [(k, \<lparr>item_value = v, expiry = map_option (Pair (effective_ttl ?c a)) x,
                   created_at = t3\<rparr>)]"
      by blast+
    from init_recency[of fadd m d ops] obtain Q where
      Q: "map fst (cache ?c) = filter Q (remdups ?bumps)" by blast
    have ksw: "map fst (cache ?sw)
        = filter (\<lambda>k. Q k \<and> k \<notin> set (expired_keys (cache ?c) t2)) (remdups ?bumps)"
      unfolding keys_evict_expired Q filter_filter by (simp add: conj_commute)
    have kne: "map fst (cache ?sw) \<noteq> []" using ne by simp
    from filter_remdups_hd[OF ksw kne] obtain pre post where
      "?bumps = pre @ hd (map fst (cache ?sw)) # post"
      "hd (map fst (cache ?sw)) \<notin> set post"
      "\<forall>k'\<in>set (map fst (cache ?sw)). k' \<noteq> hd (map fst (cache ?sw)) \<longrightarrow> k' \<in> set post"
      by blast
    then have lru: "\<exists>pre post. ?bumps = pre @ fst (hd (cache ?sw)) # post
                    \<and> fst (hd (cache ?sw)) \<notin> set post
                    \<and> (\<forall>k' \<in> fst ` set (cache ?sw). k' \<noteq> fst (hd (cache ?sw)) \<longrightarrow> k' \<in> set post)"
      using ne by (simp add: hd_map) blast
    have "map fst (cache (snd ?r)) = tl (map fst (cache ?sw)) @ [k]"
      by (simp add: eq map_tl)
    moreover have "butlast (cache (snd ?r)) = tl (cache ?sw)" by (simp add: eq)
    moreover have "length (cache (snd ?r)) = length (cache ?sw)" using ne by (simp add: eq)
    ultimately show ?thesis using ne lru by blast
  qed
  from 1 2 3 4 show ?thesis unfolding Let_def by blast
qed

theorem put_within_capacity_witness:
  "(0::int) < 2 \<and>
   map fst (cache (exec_ops exact_add (InMemoryCache_init 2 3600)
      [Put ''a'' (PInt 1) None 0 0 0, Put ''b'' (PInt 2) None 1 1 1, Get ''a'' 2]))
     = [''b'', ''a''] \<and>
   touch_log exact_add (InMemoryCache_init 2 3600)
      [Put ''a'' (PInt 1) None 0 0 0, Put ''b'' (PInt 2) None 1 1 1, Get ''a'' 2]
     = [''a'', ''b'', ''a''] \<and>
   fst (put exact_add (exec_ops exact_add (InMemoryCache_init 2 3600)
      [Put ''a'' (PInt 1) None 0 0 0, Put ''b'' (PInt 2) None 1 1 1, Get ''a'' 2])
      ''c'' (PInt 3) None 3 3 3) = Inr True \<and>
   map fst (cache (snd (put exact_add (exec_ops exact_add (InMemoryCache_init 2 3600)
      [Put ''a'' (PInt 1) None 0 0 0, Put ''b'' (PInt 2) None 1 1 1, Get ''a'' 2])
      ''c'' (PInt 3) None 3 3 3))) = [''a'', ''c'']"
proof -
  let ?ops = "[Put ''a'' (PInt 1) None 0 0 0, Put ''b'' (PInt 2) None 1 1 1, Get ''a'' 2]"
  have c: "exec_ops exact_add (InMemoryCache_init 2 3600) ?ops
      = \<lparr>max_size = 2, default_ttl = 3600,
         cache = [(''b'', \<lparr>item_value = PInt 2, expiry = Some (3600, 3601), created_at = 1\<rparr>),
                  (''a'', \<lparr>item_value = PInt 1, expiry = Some (3600, 3600), created_at = 0\<rparr>)]\<rparr>"
    by (simp add: InMemoryCache_init_def put_def Let_def effective_ttl_def expiration_def
          exact_add_def evict_expired_def expired_keys_def evict_lru_def get_def is_expired_def)
  have l: "touch_log exact_add (InMemoryCache_init 2 3600) ?ops = [''a'', ''b'', ''a'']"
    by (simp add: InMemoryCache_init_def put_def Let_def effective_ttl_def expiration_def
          exact_add_def evict_expired_def expired_keys_def evict_lru_def get_def is_expired_def)
  let ?C = "\<lparr>max_size = 2, default_ttl = 3600,
         cache = [(''b'', \<lparr>item_value = PInt 2, expiry = Some (3600, 3601), created_at = 1\<rparr>),
                  (''a'', \<lparr>item_value = PInt 1, expiry = Some (3600, 3600), created_at = 0\<rparr>)]\<rparr>"
  have ev: "put exact_add ?C ''c'' (PInt 3) None 3 3 3
      = (Inr True, \<lparr>max_size = 2, default_ttl = 3600,
         cache = [(''a'', \<lparr>item_value = PInt 1, expiry = Some (3600, 3600), created_at = 0\<rparr>),
                  (''c'', \<lparr>item_value = PInt 3, expiry = Some (3600, 3603), created_at = 3\<rparr>)]\<rparr>)"
    by (simp add: put_def Let_def effective_ttl_def expiration_def
          exact_add_def evict_expired_def expired_keys_def evict_lru_def)
  have h: "(0::int) < 2" by simp
  note T = put_within_capacity[OF h, where fadd = exact_add and d = 3600 and ops = ?ops
      and k = "''c''" and v = "PInt 3" and a = None and ?t1.0 = 3 and ?t2.0 = 3 and ?t3.0 = 3,
      unfolded Let_def c l ev]
  from T show ?thesis unfolding c l ev by simp
qed

subsection \<open>The most recently used key is last\<close>

text \<open>
  C7. Take a cache as constructed and any sequence of calls of its public methods. A call
  bumps a key when it is a \<open>put\<close> of that key that returns (an insert or an overwrite) or a
  \<open>get\<close> of that key that finds an unexpired entry (a successful \<open>get\<close>). After the sequence:
  \<^item> the recency order lists the stored keys in the order of their most recent bumps;
  \<^item> if the store is not empty, the last key of the order has been bumped and no stored key
    has been bumped after its most recent bump: among the stored keys it is the one most
    recently inserted, overwritten or successfully read;
  \<^item> if the key of the most recent bump of the whole sequence is still stored, it is the
    last key of the order.

  On any state, a \<open>put\<close> that returns leaves its key last in the order, with the value put,
  and a \<open>get\<close> of an unexpired entry returns its value and leaves that entry last.
\<close>

theorem recency_order_most_recent_last:
  "(let c' = exec_ops fadd (InMemoryCache_init m d) xs;
        bumps = touch_log fadd (InMemoryCache_init m d) xs
    in map fst (cache c') = filter (\<lambda>k. k \<in> fst ` set (cache c')) (remdups bumps)
     \<and> (cache c' \<noteq> [] \<longrightarrow>
          (\<exists>pre post. bumps = pre @ fst (last (cache c')) # post
              \<and> (\<forall>k \<in> fst ` set (cache c'). k \<notin> set post)))
     \<and> (bumps \<noteq> [] \<and> last bumps \<in> fst ` set (cache c') \<longrightarrow>
          cache c' \<noteq> [] \<and> fst (last (cache c')) = last bumps))
   \<and> (fst (put fadd c k v a t1 t2 t3) = Inr True
      \<longrightarrow> cache (snd (put fadd c k v a t1 t2 t3)) \<noteq> []
        \<and> fst (last (cache (snd (put fadd c k v a t1 t2 t3)))) = k
        \<and> item_value (snd (last (cache (snd (put fadd c k v a t1 t2 t3))))) = v)
   \<and> (\<forall>it. map_of (cache c) k = Some it \<and> \<not> is_expired it now
      \<longrightarrow> fst (get c k now) = item_value it
        \<and> cache (snd (get c k now)) \<noteq> [] \<and> last (cache (snd (get c k now))) = (k, it))"
proof -
  let ?c = "exec_ops fadd (InMemoryCache_init m d) xs"
  let ?bumps = "touch_log fadd (InMemoryCache_init m d) xs"
  from init_recency[of fadd m d xs] obtain Q where
    Q: "map fst (cache ?c) = filter Q (remdups ?bumps)" by blast
  have 1: "map fst (cache ?c) = filter (\<lambda>k. k \<in> fst ` set (cache ?c)) (remdups ?bumps)"
    using filter_remdups_stored[OF Q] by simp
  have 2: "\<exists>pre post. ?bumps = pre @ fst (last (cache ?c)) # post
              \<and> (\<forall>k \<in> fst ` set (cache ?c). k \<notin> set post)"
    if ne: "cache ?c \<noteq> []"
  proof -
    have "map fst (cache ?c) \<noteq> []" using ne by simp
    from filter_remdups_last[OF Q this] show ?thesis
      using ne by (simp add: last_map)
  qed
  have 3: "cache ?c \<noteq> [] \<and> fst (last (cache ?c)) = last ?bumps"
    if b: "?bumps \<noteq> []" and st: "last ?bumps \<in> fst ` set (cache ?c)"
  proof -
    from st have ne: "cache ?c \<noteq> []" by auto
    from 2[OF ne] obtain pre post where
      p: "?bumps = pre @ fst (last (cache ?c)) # post"
      and np: "\<forall>k \<in> fst ` set (cache ?c). k \<notin> set post"
      by blast
    have "post = []"
    proof (rule ccontr)
      assume "post \<noteq> []"
      then have "last ?bumps \<in> set post" by (subst p) simp
      with st np show False by blast
    qed
    with p have "last ?bumps = fst (last (cache ?c))" by simp
    with ne show ?thesis by simp
  qed
  have 4: "fst (put fadd c k v a t1 t2 t3) = Inr True
      \<longrightarrow> cache (snd (put fadd c k v a t1 t2 t3)) \<noteq> []
        \<and> fst (last (cache (snd (put fadd c k v a t1 t2 t3)))) = k
        \<and> item_value (snd (last (cache (snd (put fadd c k v a t1 t2 t3))))) = v"
    using put_last[of fadd c k v a t1 t2 t3] by blast
  have 5: "\<forall>it. map_of (cache c) k = Some it \<and> \<not> is_expired it now
      \<longrightarrow> fst (get c k now) = item_value it
        \<and> cache (snd (get c k now)) \<noteq> [] \<and> last (cache (snd (get c k now))) = (k, it)"
    by (simp add: get_def)
  from 1 2 3 4 5 show ?thesis unfolding Let_def by blast
qed

theorem recency_order_most_recent_last_witness:
  "touch_log exact_add (InMemoryCache_init 3 3600)
      [Put ''a'' (PInt 1) None 0 0 0, Put ''b'' (PInt 2) None 1 1 1,
       Put ''c'' (PInt 3) None 2 2 2, Get ''b'' 3, Delete ''b'']
     = [''a'', ''b'', ''c'', ''b'']
   \<and> map fst (cache (exec_ops exact_add (InMemoryCache_init 3 3600)
      [Put ''a'' (PInt 1) None 0 0 0, Put ''b'' (PInt 2) None 1 1 1,
       Put ''c'' (PInt 3) None 2 2 2, Get ''b'' 3, Delete ''b''])) = [''a'', ''c'']
   \<and> filter (\<lambda>k. k \<in> {''a'', ''c''}) (remdups [''a'', ''b'', ''c'', ''b'']) = [''a'', ''c'']"
proof -
  let ?ops = "[Put ''a'' (PInt 1) None 0 0 0, Put ''b'' (PInt 2) None 1 1 1,
       Put ''c'' (PInt 3) None 2 2 2, Get ''b'' 3, Delete ''b'']"
  have c: "exec_ops exact_add (InMemoryCache_init 3 3600) ?ops
      = \<lparr>max_size = 3, default_ttl = 3600,
         cache = [(''a'', \<lparr>item_value = PInt 1, expiry = Some (3600, 3600), created_at = 0\<rparr>),
                  (''c'', \<lparr>item_value = PInt 3, expiry = Some (3600, 3602), created_at = 2\<rparr>)]\<rparr>"
    by (simp add: InMemoryCache_init_def put_def Let_def effective_ttl_def expiration_def
          exact_add_def evict_expired_def expired_keys_def evict_lru_def get_def is_expired_def
          delete_def)
  have l: "touch_log exact_add (InMemoryCache_init 3 3600) ?ops = [''a'', ''b'', ''c'', ''b'']"
    by (simp add: InMemoryCache_init_def put_def Let_def effective_ttl_def expiration_def
          exact_add_def evict_expired_def expired_keys_def evict_lru_def get_def is_expired_def
          delete_def)
  note T = recency_order_most_recent_last[where fadd = exact_add and m = 3 and d = 3600
      and xs = ?ops, unfolded Let_def c l, THEN conjunct1, THEN conjunct1]
  from T show ?thesis unfolding c l by simp
qed

subsection \<open>Overwriting a key\<close>

lemma evict_expired_none_expired:
  assumes "\<forall>(k, it) \<in> set (cache c). \<not> is_expired it now"
  shows "evict_expired c now = c"
proof -
  have "expired_keys (cache c) now = []"
  proof (rule ccontr)
    assume "expired_keys (cache c) now \<noteq> []"
    then obtain k where "k \<in> set (expired_keys (cache c) now)"
      by (cases "expired_keys (cache c) now") auto
    then show False using assms by (auto simp: in_expired_keys_iff)
  qed
  then show ?thesis by (simp add: evict_expired_def)
qed

lemma length_delete_distinct:
  "distinct (map fst xs) \<Longrightarrow> map_of xs k \<noteq> None \<Longrightarrow> Suc (length (AList.delete k xs)) = length xs"
proof (induction xs)
  case Nil
  then show ?case by simp
next
  case (Cons x xs)
  obtain k' w where [simp]: "x = (k', w)" by (cases x)
  show ?case
  proof (cases "k' = k")
    case True
    with Cons.prems have "k \<notin> fst ` set xs" by auto
    with True show ?thesis by simp
  next
    case False
    with Cons show ?thesis by simp
  qed
qed

text \<open>
  C6. The key of a \<open>put\<close> is already stored and no entry is expired at the sweep (at full
  capacity or not). The \<open>put\<close> returns \<open>True\<close> exactly when the addition of line 69 does not
  raise; when it raises, the store is untouched. When the \<open>put\<close> returns, nothing is evicted
  and only the entry of that key is replaced: the store afterwards is the old store without
  the key, in the old order, followed by the new entry. In both cases every other key keeps
  its entry, the set of keys is the same, and with distinct keys the number of entries is the
  same.
\<close>

theorem put_overwrite_evicts_nothing:
  assumes "map_of (cache c) k = Some old"
      and "\<forall>(k', it) \<in> set (cache c). \<not> is_expired it t2"
  shows "(fst (put fadd c k v a t1 t2 t3) = Inr True
            \<longleftrightarrow> (\<exists>x. expiration fadd t1 (effective_ttl c a) = Inr x))
       \<and> (fst (put fadd c k v a t1 t2 t3) \<noteq> Inr True \<longrightarrow> snd (put fadd c k v a t1 t2 t3) = c)
       \<and> (fst (put fadd c k v a t1 t2 t3) = Inr True \<longrightarrow>
            butlast (cache (snd (put fadd c k v a t1 t2 t3))) = AList.delete k (cache c)
          \<and> fst (last (cache (snd (put fadd c k v a t1 t2 t3)))) = k
          \<and> item_value (snd (last (cache (snd (put fadd c k v a t1 t2 t3))))) = v)
       \<and> (\<forall>k'. k' \<noteq> k \<longrightarrow>
             map_of (cache (snd (put fadd c k v a t1 t2 t3))) k' = map_of (cache c) k')
       \<and> fst ` set (cache (snd (put fadd c k v a t1 t2 t3))) = fst ` set (cache c)
       \<and> (distinct (map fst (cache c)) \<longrightarrow>
             length (cache (snd (put fadd c k v a t1 t2 t3))) = length (cache c))"
proof (cases "expiration fadd t1 (effective_ttl c a)")
  case (Inl e)
  then have "put fadd c k v a t1 t2 t3 = (Inl e, c)" by (rule put_raises)
  with Inl show ?thesis by simp
next
  case (Inr x)
  let ?new = "\<lparr>item_value = v, expiry = map_option (Pair (effective_ttl c a)) x,
               created_at = t3\<rparr>"
  have sw: "evict_expired c t2 = c" using assms(2) by (rule evict_expired_none_expired)
  have abs: "map_of (AList.delete k (cache c)) k = None" by (simp add: AList.delete_conv')
  have r: "put fadd c k v a t1 t2 t3
             = (Inr True, c\<lparr>cache := AList.delete k (cache c) @ [(k, ?new)]\<rparr>)"
    using assms(1) Inr by (simp add: put_def Let_def sw update_absent[OF abs])
  have keys: "fst ` set (AList.delete k (cache c) @ [(k, ?new)]) = fst ` set (cache c)"
  proof -
    have "k \<in> fst ` set (cache c)" using assms(1) by (metis map_of_eq_None_iff option.distinct(1))
    moreover have "fst ` set (AList.delete k (cache c)) = fst ` set (cache c) - {k}"
      by (auto simp: AList.delete_eq)
    ultimately show ?thesis by auto
  qed
  have others: "\<And>k'. k' \<noteq> k \<Longrightarrow>
      map_of (AList.delete k (cache c) @ [(k, ?new)]) k' = map_of (cache c) k'"
    by (simp add: AList.delete_conv' map_add_def split: option.splits)
  have len: "distinct (map fst (cache c)) \<Longrightarrow>
      length (AList.delete k (cache c) @ [(k, ?new)]) = length (cache c)"
    using length_delete_distinct[of "cache c" k] assms(1) by simp
  show ?thesis
    unfolding r using keys others len Inr by simp
qed

theorem put_overwrite_evicts_nothing_witness:
  "map fst (cache (snd (put exact_add \<lparr>max_size = 2, default_ttl = 3600,
         cache = [(''a'', \<lparr>item_value = PInt 1, expiry = Some (10, 10), created_at = 0\<rparr>),
                  (''b'', \<lparr>item_value = PInt 2, expiry = None, created_at = 0\<rparr>)]\<rparr>
       ''a'' (PInt 7) None 5 5 5))) = [''b'', ''a'']
   \<and> fst (put exact_add \<lparr>max_size = 2, default_ttl = 3600,
         cache = [(''a'', \<lparr>item_value = PInt 1, expiry = Some (10, 10), created_at = 0\<rparr>),
                  (''b'', \<lparr>item_value = PInt 2, expiry = None, created_at = 0\<rparr>)]\<rparr>
       ''a'' (PInt 7) None 5 5 5) = Inr True"
proof -
  let ?c = "\<lparr>max_size = 2, default_ttl = 3600,
         cache = [(''a'', \<lparr>item_value = PInt 1, expiry = Some (10, 10), created_at = 0\<rparr>),
                  (''b'', \<lparr>item_value = PInt 2, expiry = None, created_at = 0\<rparr>)]\<rparr>"
  have 1: "map_of (cache ?c) ''a'' = Some \<lparr>item_value = PInt 1, expiry = Some (10, 10), created_at = 0\<rparr>"
    by simp
  have 2: "\<forall>(k', it) \<in> set (cache ?c). \<not> is_expired it 5"
    by (simp add: is_expired_def)
  have 3: "map fst (cache (snd (put exact_add ?c ''a'' (PInt 7) None 5 5 5))) = [''b'', ''a'']"
    by (simp add: put_def Let_def evict_expired_def expired_keys_def effective_ttl_def
          expiration_def exact_add_def)
  have 4: "expiration exact_add 5 (effective_ttl ?c None) = Inr (Some 3605)"
    by (simp add: effective_ttl_def expiration_def exact_add_def)
  from put_overwrite_evicts_nothing[OF 1 2, of exact_add "PInt 7" None 5 5] 3 4
  show ?thesis by simp
qed

subsection \<open>The LRU scenario\<close>

text \<open>
  C4. A cache with \<open>max_size = 2\<close> and any \<open>default_ttl\<close>; \<open>put(a, 1)\<close>, \<open>put(b, 2)\<close>, \<open>get(a)\<close>,
  \<open>put(c, 3)\<close>, then \<open>get(a)\<close>, \<open>get(b)\<close>, \<open>get(c)\<close>, with no entry expiring: either the default
  TTL is not positive, or the three additions of line 69 return and every clock reading at
  which an entry is examined is at most the \<open>expires_at\<close> stored for it. Then the three \<open>put\<close>
  return \<open>True\<close>, the first \<open>get(a)\<close> returns 1 and moves \<open>a\<close> behind \<open>b\<close>, and \<open>put(c, 3)\<close>
  evicts exactly \<open>b\<close>, leaving \<open>a, c\<close>. Afterwards \<open>get(a)\<close> returns 1, \<open>get(b)\<close> is a miss and
  \<open>get(c)\<close> returns 3.
\<close>

theorem lru_eviction_scenario:
  assumes "d \<le> 0
         \<or> (\<exists>ea eb ec. fadd ta1 d = Inr ea \<and> fadd tb1 d = Inr eb \<and> fadd tc1 d = Inr ec
               \<and> (\<forall>t \<in> {tb2, tg, tc2, t5}. t \<le> ea) \<and> tc2 \<le> eb \<and> t7 \<le> ec)"
  shows "let c0 = InMemoryCache_init 2 d;
             c1 = snd (put fadd c0 ''a'' (PInt 1) None ta1 ta2 ta3);
             c2 = snd (put fadd c1 ''b'' (PInt 2) None tb1 tb2 tb3);
             c3 = snd (get c2 ''a'' tg);
             c4 = snd (put fadd c3 ''c'' (PInt 3) None tc1 tc2 tc3);
             c5 = snd (get c4 ''a'' t5);
             c6 = snd (get c5 ''b'' t6)
         in fst (put fadd c0 ''a'' (PInt 1) None ta1 ta2 ta3) = Inr True
          \<and> fst (put fadd c1 ''b'' (PInt 2) None tb1 tb2 tb3) = Inr True
          \<and> map fst (cache c2) = [''a'', ''b'']
          \<and> fst (get c2 ''a'' tg) = PInt 1
          \<and> map fst (cache c3) = [''b'', ''a'']
          \<and> fst (put fadd c3 ''c'' (PInt 3) None tc1 tc2 tc3) = Inr True
          \<and> map fst (cache c4) = [''a'', ''c'']
          \<and> fst (get c4 ''a'' t5) = PInt 1
          \<and> fst (get c5 ''b'' t6) = PNone
          \<and> fst (get c6 ''c'' t7) = PInt 3"
proof -
  have "\<exists>xa xb xc. expiration fadd ta1 d = Inr xa \<and> expiration fadd tb1 d = Inr xb
          \<and> expiration fadd tc1 d = Inr xc
          \<and> (\<forall>t \<in> {tb2, tg, tc2, t5}. \<forall>e. xa = Some e \<longrightarrow> t \<le> e)
          \<and> (\<forall>e. xb = Some e \<longrightarrow> tc2 \<le> e) \<and> (\<forall>e. xc = Some e \<longrightarrow> t7 \<le> e)"
  proof (cases "d \<le> 0")
    case True
    then show ?thesis by (simp add: expiration_def)
  next
    case False
    with assms obtain ea eb ec where "fadd ta1 d = Inr ea" "fadd tb1 d = Inr eb"
        "fadd tc1 d = Inr ec" "\<forall>t \<in> {tb2, tg, tc2, t5}. t \<le> ea" "tc2 \<le> eb" "t7 \<le> ec"
      by blast
    with False show ?thesis by (simp add: expiration_def)
  qed
  then obtain xa xb xc where xa: "expiration fadd ta1 d = Inr xa"
      and xb: "expiration fadd tb1 d = Inr xb" and xc: "expiration fadd tc1 d = Inr xc"
      and la: "\<forall>t \<in> {tb2, tg, tc2, t5}. \<forall>e. xa = Some e \<longrightarrow> t \<le> e"
      and lb: "\<forall>e. xb = Some e \<longrightarrow> tc2 \<le> e" and lc: "\<forall>e. xc = Some e \<longrightarrow> t7 \<le> e"
    by blast
  define ia where "ia = \<lparr>item_value = PInt 1, expiry = map_option (Pair d) xa, created_at = ta3\<rparr>"
  define ib where "ib = \<lparr>item_value = PInt 2, expiry = map_option (Pair d) xb, created_at = tb3\<rparr>"
  define ic where "ic = \<lparr>item_value = PInt 3, expiry = map_option (Pair d) xc, created_at = tc3\<rparr>"
  have vals [simp]: "item_value ia = PInt 1" "item_value ib = PInt 2" "item_value ic = PInt 3"
    by (simp_all add: ia_def ib_def ic_def)
  have live_a [simp]: "\<not> is_expired ia t" if "t \<in> {tb2, tg, tc2, t5}" for t
    using la that by (cases xa) (auto simp: is_expired_def ia_def)
  have live_b [simp]: "\<not> is_expired ib tc2"
    using lb by (cases xb) (auto simp: is_expired_def ib_def)
  have live_c [simp]: "\<not> is_expired ic t7"
    using lc by (cases xc) (auto simp: is_expired_def ic_def)
  let ?C = "\<lambda>xs. \<lparr>max_size = 2, default_ttl = d, cache = xs\<rparr>"
  have eff [simp]: "effective_ttl (?C xs) None = d" for xs by (simp add: effective_ttl_def)
  have s1: "put fadd (InMemoryCache_init 2 d) ''a'' (PInt 1) None ta1 ta2 ta3
              = (Inr True, ?C [(''a'', ia)])"
    by (simp add: InMemoryCache_init_def put_def Let_def xa evict_expired_def expired_keys_def
          evict_lru_def ia_def)
  have sw2: "evict_expired (?C [(''a'', ia)]) tb2 = ?C [(''a'', ia)]"
    by (rule evict_expired_none_expired) simp
  have s2: "put fadd (?C [(''a'', ia)]) ''b'' (PInt 2) None tb1 tb2 tb3
              = (Inr True, ?C [(''a'', ia), (''b'', ib)])"
    unfolding put_def Let_def eff xb sw2 by (simp add: evict_lru_def ib_def)
  have s3: "get (?C [(''a'', ia), (''b'', ib)]) ''a'' tg = (PInt 1, ?C [(''b'', ib), (''a'', ia)])"
    by (simp add: get_def)
  have sw4: "evict_expired (?C [(''b'', ib), (''a'', ia)]) tc2 = ?C [(''b'', ib), (''a'', ia)]"
    by (rule evict_expired_none_expired) simp
  have s4: "put fadd (?C [(''b'', ib), (''a'', ia)]) ''c'' (PInt 3) None tc1 tc2 tc3
              = (Inr True, ?C [(''a'', ia), (''c'', ic)])"
    unfolding put_def Let_def eff xc sw4 by (simp add: evict_lru_def ic_def)
  have s5: "get (?C [(''a'', ia), (''c'', ic)]) ''a'' t5 = (PInt 1, ?C [(''c'', ic), (''a'', ia)])"
    by (simp add: get_def)
  have s6: "get (?C [(''c'', ic), (''a'', ia)]) ''b'' t6 = (PNone, ?C [(''c'', ic), (''a'', ia)])"
    by (simp add: get_def)
  have s7: "get (?C [(''c'', ic), (''a'', ia)]) ''c'' t7 = (PInt 3, ?C [(''a'', ia), (''c'', ic)])"
    by (simp add: get_def)
  show ?thesis
    unfolding Let_def s1 snd_conv fst_conv s2 s3 s4 s5 s6 s7 by simp
qed

theorem lru_eviction_scenario_witness:
  "map fst (cache (snd (put exact_add (snd (get (snd (put exact_add
       (snd (put exact_add (InMemoryCache_init 2 3600)
       ''a'' (PInt 1) None 0 0 0)) ''b'' (PInt 2) None 1 1 1)) ''a'' 2))
       ''c'' (PInt 3) None 3 3 3))) = [''a'', ''c'']"
proof -
  have h: "(3600::int) \<le> 0
         \<or> (\<exists>ea eb ec. exact_add 0 3600 = Inr ea \<and> exact_add 1 3600 = Inr eb
               \<and> exact_add 3 3600 = Inr ec
               \<and> (\<forall>t \<in> {1, 2, 3, 4::real}. t \<le> ea) \<and> 3 \<le> eb \<and> 6 \<le> ec)"
    by (simp add: exact_add_def)
  from lru_eviction_scenario[where fadd = exact_add and d = 3600
      and ?ta1.0 = 0 and ?ta2.0 = 0 and ?ta3.0 = 0
      and ?tb1.0 = 1 and ?tb2.0 = 1 and ?tb3.0 = 1 and tg = 2
      and ?tc1.0 = 3 and ?tc2.0 = 3 and ?tc3.0 = 3
      and ?t5.0 = 4 and ?t6.0 = 5 and ?t7.0 = 6, OF h]
  show ?thesis by (simp add: Let_def)
qed

subsection \<open>A stored \<open>None\<close>\<close>

text \<open>
  C10. \<open>put(key, None, ttl)\<close> with a positive \<open>ttl\<close>, on a cache of positive capacity, whose
  addition of line 69 returns \<open>e\<close>. The \<open>put\<close> returns \<open>True\<close> and stores an entry for the key
  whose value is \<open>None\<close> and whose \<open>expires_at\<close> is \<open>e\<close>. At every clock reading \<open>get(key)\<close>
  returns \<open>None\<close>, the result of a miss, and the handler \<open>get_cache_item\<close> called with the key
  answers 404 with the error \<open>Key not found or expired\<close>: the same result and the same response
  as on a store that does not hold the key. At every clock reading up to \<open>e\<close> the entry is
  unexpired, and it is still stored after the \<open>get\<close>.
\<close>

theorem stored_None_reads_as_miss:
  assumes "0 < max_size c" and "0 < n" and "fadd t1 n = Inr e"
  shows "fst (put fadd c k PNone (Some n) t1 t2 t3) = Inr True
       \<and> map_of (cache (snd (put fadd c k PNone (Some n) t1 t2 t3))) k
           = Some \<lparr>item_value = PNone, expiry = Some (n, e), created_at = t3\<rparr>
       \<and> (\<forall>now. fst (get (snd (put fadd c k PNone (Some n) t1 t2 t3)) k now) = PNone)
       \<and> (\<forall>now. fst (get_cache_item (snd (put fadd c k PNone (Some n) t1 t2 t3)) k now ts)
           = (PDict [(''error'', PStr ''Key not found or expired''), (''key'', PStr k)], 404))
       \<and> (\<forall>now. fst (get (snd (put fadd c k PNone (Some n) t1 t2 t3)) k now)
           = fst (get (clear (snd (put fadd c k PNone (Some n) t1 t2 t3))) k now))
       \<and> (\<forall>now. fst (get_cache_item (snd (put fadd c k PNone (Some n) t1 t2 t3)) k now ts)
           = fst (get_cache_item (clear (snd (put fadd c k PNone (Some n) t1 t2 t3))) k now ts))
       \<and> (\<forall>now. now \<le> e \<longrightarrow>
            \<not> is_expired \<lparr>item_value = PNone, expiry = Some (n, e), created_at = t3\<rparr> now
          \<and> map_of (cache (snd (get (snd (put fadd c k PNone (Some n) t1 t2 t3)) k now))) k
              = Some \<lparr>item_value = PNone, expiry = Some (n, e), created_at = t3\<rparr>)"
proof -
  let ?r = "put fadd c k PNone (Some n) t1 t2 t3"
  let ?it = "\<lparr>item_value = PNone, expiry = Some (n, e), created_at = t3\<rparr>"
  have x: "expiration fadd t1 (effective_ttl c (Some n)) = Inr (Some e)"
    using assms(2,3) by (simp add: expiration_def effective_ttl_def)
  have ret: "fst ?r = Inr True" using assms(1) x by (rule put_returns)
  have look: "map_of (cache (snd ?r)) k = Some ?it"
    using put_lookup[OF ret x] by (simp add: effective_ttl_def)
  have g: "fst (get (snd ?r) k now) = PNone" for now
    using look by (simp add: get_def)
  have miss: "get (clear (snd ?r)) k now = (PNone, clear (snd ?r))" for now
    by (simp add: get_def clear_def)
  have h1: "fst (get_cache_item (snd ?r) k now ts)
           = (PDict [(''error'', PStr ''Key not found or expired''), (''key'', PStr k)], 404)"
    for now
    using g[of now] by (cases "get (snd ?r) k now") (simp add: get_cache_item_def)
  have h2: "fst (get_cache_item (clear (snd ?r)) k now ts)
           = (PDict [(''error'', PStr ''Key not found or expired''), (''key'', PStr k)], 404)"
    for now
    by (simp add: get_cache_item_def miss)
  have live: "\<not> is_expired ?it now
          \<and> map_of (cache (snd (get (snd ?r) k now))) k = Some ?it" if "now \<le> e" for now
  proof -
    from that have ne: "\<not> is_expired ?it now" by (simp add: is_expired_def)
    with look have "cache (snd (get (snd ?r) k now))
        = AList.delete k (cache (snd ?r)) @ [(k, ?it)]"
      by (simp add: get_def)
    then have "map_of (cache (snd (get (snd ?r) k now))) k = Some ?it"
      by (simp add: AList.delete_conv' map_add_def)
    with ne show ?thesis by simp
  qed
  show ?thesis
    using ret look g h1 h2 live by (simp add: miss)
qed

theorem stored_None_reads_as_miss_witness:
  "fst (get (snd (put exact_add app_cache ''k'' PNone (Some 60) 0 0 0)) ''k'' 30) = PNone
   \<and> map_of (cache (snd (put exact_add app_cache ''k'' PNone (Some 60) 0 0 0))) ''k''
       = Some \<lparr>item_value = PNone, expiry = Some (60, 60), created_at = 0\<rparr>
   \<and> \<not> is_expired \<lparr>item_value = PNone, expiry = Some (60, 60), created_at = 0\<rparr> 30
   \<and> fst (get_cache_item (snd (put exact_add app_cache ''k'' PNone (Some 60) 0 0 0))
          ''k'' 30 ''ts'')
       = (PDict [(''error'', PStr ''Key not found or expired''), (''key'', PStr ''k'')], 404)"
proof -
  have 1: "0 < max_size app_cache" by (simp add: app_cache_def InMemoryCache_init_def)
  have 2: "(0::int) < 60" by simp
  have 3: "exact_add 0 60 = Inr 60" by (simp add: exact_add_def)
  have 4: "(30::real) \<le> 60" by simp
  from stored_None_reads_as_miss[where fadd = exact_add and c = app_cache and n = 60
      and ?t1.0 = 0 and e = 60 and k = "''k''" and ?t2.0 = 0 and ?t3.0 = 0 and ts = "''ts''",
      OF 1 2 3] 4
  show ?thesis by simp
qed

subsection \<open>The \<open>PUT\<close> handler\<close>

text \<open>
  For a JSON object with a \<open>value\<close> and a positive integer \<open>ttl\<close>, or with no \<open>ttl\<close>, the
  response of a \<open>put\<close> that returns reports the TTL that \<open>put\<close> applies.
\<close>

lemma put_cache_item_reports_positive_ttl:
  assumes "0 < max_size c" and "map_of d ''value'' = Some v"
      and "map_of d ''ttl'' = Some (PInt n)" and "0 < n" and "fadd t1 n = Inr e"
  shows "fst (put_cache_item fadd str_exc c \<lparr>is_json = True, get_json = Inr (PDict d)\<rparr>
                k t1 t2 t3 ts)
           = (PDict [(''message'', PStr ''Value stored successfully''), (''key'', PStr k),
                     (''ttl'', PInt n), (''timestamp'', PStr ts)], 201)
       \<and> snd (put_cache_item fadd str_exc c \<lparr>is_json = True, get_json = Inr (PDict d)\<rparr>
                k t1 t2 t3 ts)
           = snd (put fadd c k v (Some n) t1 t2 t3)"
proof -
  have "expiration fadd t1 (effective_ttl c (Some n)) = Inr (Some e)"
    using assms(4,5) by (simp add: expiration_def effective_ttl_def)
  with assms(1) have "fst (put fadd c k v (Some n) t1 t2 t3) = Inr True" by (rule put_returns)
  then obtain c' where "put fadd c k v (Some n) t1 t2 t3 = (Inr True, c')"
    by (cases "put fadd c k v (Some n) t1 t2 t3") auto
  with assms show ?thesis by (simp add: put_cache_item_def)
qed

lemma put_cache_item_reports_default_ttl:
  assumes "0 < max_size c" and "map_of d ''value'' = Some v" and "map_of d ''ttl'' = None"
      and "expiration fadd t1 (default_ttl c) = Inr x"
  shows "fst (put_cache_item fadd str_exc c \<lparr>is_json = True, get_json = Inr (PDict d)\<rparr>
                k t1 t2 t3 ts)
           = (PDict [(''message'', PStr ''Value stored successfully''), (''key'', PStr k),
                     (''ttl'', PInt (default_ttl c)), (''timestamp'', PStr ts)], 201)
       \<and> snd (put_cache_item fadd str_exc c \<lparr>is_json = True, get_json = Inr (PDict d)\<rparr>
                k t1 t2 t3 ts)
           = snd (put fadd c k v None t1 t2 t3)"
proof -
  have "expiration fadd t1 (effective_ttl c None) = Inr x"
    using assms(4) by (simp add: effective_ttl_def)
  with assms(1) have "fst (put fadd c k v None t1 t2 t3) = Inr True" by (rule put_returns)
  then obtain c' where c': "put fadd c k v None t1 t2 t3 = (Inr True, c')"
    by (cases "put fadd c k v None t1 t2 t3") auto
  then have "default_ttl c' = default_ttl c"
    using put_fields(2)[of fadd c k v None t1 t2 t3] by simp
  with assms c' show ?thesis by (simp add: put_cache_item_def)
qed

text \<open>
  C5. The request \<open>PUT /cache/k\<close> with the body \<open>{"value": 1, "ttl": 0}\<close> on the module's
  empty cache is accepted with 201. \<open>put\<close> is called with \<open>ttl = 0\<close> and stores the entry
  with no expiry, while \<open>ttl or cache.default_ttl\<close> puts 3600, not 0, into the response.
\<close>

theorem put_cache_item_zero_ttl_reports_default:
  "put_cache_item fadd str_exc app_cache
      \<lparr>is_json = True, get_json = Inr (PDict [(''value'', PInt 1), (''ttl'', PInt 0)])\<rparr>
      ''k'' t1 t2 t3 ts
   = ((PDict [(''message'', PStr ''Value stored successfully''), (''key'', PStr ''k''),
              (''ttl'', PInt 3600), (''timestamp'', PStr ts)], 201),
      \<lparr>max_size = 1000, default_ttl = 3600,
        cache = [(''k'', \<lparr>item_value = PInt 1, expiry = None, created_at = t3\<rparr>)]\<rparr>)"
  by (simp add: put_cache_item_def app_cache_def InMemoryCache_init_def put_def Let_def
        effective_ttl_def expiration_def evict_expired_def expired_keys_def evict_lru_def)

text \<open>
  C9, as stated, fails: the body \<open>{"value": 1, "ttl": null}\<close> has a \<open>ttl\<close> field that is not a
  non-negative integer, and the handler answers 201 and stores the entry with the default TTL.
\<close>

theorem put_cache_item_null_ttl_counterexample:
  "put_cache_item exact_add (\<lambda>e. ''exception'') app_cache
      \<lparr>is_json = True, get_json = Inr (PDict [(''value'', PInt 1), (''ttl'', PNone)])\<rparr>
      ''k'' 0 0 0 ''ts''
   = ((PDict [(''message'', PStr ''Value stored successfully''), (''key'', PStr ''k''),
              (''ttl'', PInt 3600), (''timestamp'', PStr ''ts'')], 201),
      \<lparr>max_size = 1000, default_ttl = 3600,
        cache = [(''k'', \<lparr>item_value = PInt 1, expiry = Some (3600, 3600), created_at = 0\<rparr>)]\<rparr>)"
  by (simp add: put_cache_item_def app_cache_def InMemoryCache_init_def put_def Let_def
        effective_ttl_def expiration_def exact_add_def evict_expired_def expired_keys_def
        evict_lru_def)

text \<open>
  A boolean \<open>ttl\<close> passes \<open>isinstance(ttl, int)\<close>: \<open>{"value": 1, "ttl": true}\<close> is accepted and,
  when the addition returns, stored with a TTL of one second.
\<close>

lemma put_cache_item_accepts_boolean_ttl:
  assumes "fadd t1 1 = Inr e"
  shows "put_cache_item fadd str_exc app_cache
      \<lparr>is_json = True, get_json = Inr (PDict [(''value'', PInt 1), (''ttl'', PBool True)])\<rparr>
      ''k'' t1 t2 t3 ts
   = ((PDict [(''message'', PStr ''Value stored successfully''), (''key'', PStr ''k''),
              (''ttl'', PBool True), (''timestamp'', PStr ts)], 201),
      \<lparr>max_size = 1000, default_ttl = 3600,
        cache = [(''k'', \<lparr>item_value = PInt 1, expiry = Some (1, e), created_at = t3\<rparr>)]\<rparr>)"
  using assms
  by (simp add: put_cache_item_def app_cache_def InMemoryCache_init_def put_def Let_def
        effective_ttl_def expiration_def evict_expired_def expired_keys_def evict_lru_def)

text \<open>
  C9, amended. The handler answers 400 and leaves the store as it was when the request is not
  marked as JSON by its Content-Type, or when its body is a JSON object without a \<open>value\<close>
  field, or a JSON object with a \<open>value\<close> field whose \<open>ttl\<close> field is neither \<open>null\<close> nor a
  boolean nor a non-negative integer (a negative integer, a float, a string, a list, an
  object).
\<close>

theorem put_cache_item_rejects_without_storing:
  assumes "\<not> is_json req
         \<or> (\<exists>d. get_json req = Inr (PDict d)
               \<and> (map_of d ''value'' = None
                  \<or> (\<exists>t. map_of d ''ttl'' = Some t \<and> t \<noteq> PNone \<and> (\<forall>b. t \<noteq> PBool b)
                         \<and> (\<forall>n. t = PInt n \<longrightarrow> n < 0))))"
  shows "snd (fst (put_cache_item fadd str_exc c req k t1 t2 t3 ts)) = 400
       \<and> snd (put_cache_item fadd str_exc c req k t1 t2 t3 ts) = c"
proof (cases "is_json req")
  case False
  then show ?thesis by (simp add: put_cache_item_def)
next
  case True
  with assms obtain d where d: "get_json req = Inr (PDict d)"
    and bad: "map_of d ''value'' = None
                  \<or> (\<exists>t. map_of d ''ttl'' = Some t \<and> t \<noteq> PNone \<and> (\<forall>b. t \<noteq> PBool b)
                         \<and> (\<forall>n. t = PInt n \<longrightarrow> n < 0))"
    by blast
  show ?thesis
  proof (cases "map_of d ''value''")
    case None
    with True d show ?thesis by (simp add: put_cache_item_def)
  next
    case (Some v)
    with bad obtain t where t: "map_of d ''ttl'' = Some t" "t \<noteq> PNone" "\<forall>b. t \<noteq> PBool b"
        "\<forall>n. t = PInt n \<longrightarrow> n < 0"
      by auto
    then have "case as_int t of None \<Rightarrow> True | Some n \<Rightarrow> n < 0"
      by (cases t) auto
    with True d Some t show ?thesis by (simp add: put_cache_item_def)
  qed
qed

theorem put_cache_item_rejects_without_storing_witness:
  "put_cache_item exact_add (\<lambda>e. ''exception'') app_cache
      \<lparr>is_json = True, get_json = Inr (PDict [(''value'', PInt 1), (''ttl'', PInt (- 1))])\<rparr>
      ''k'' 0 0 0 ''ts''
     = ((PDict [(''error'', PStr ''TTL must be a non-negative integer'')], 400), app_cache)
   \<and> put_cache_item exact_add (\<lambda>e. ''exception'') app_cache
      \<lparr>is_json = True, get_json = Inr (PDict [(''value'', PInt 1), (''ttl'', PStr ''soon'')])\<rparr>
      ''k'' 0 0 0 ''ts''
     = ((PDict [(''error'', PStr ''TTL must be a non-negative integer'')], 400), app_cache)
   \<and> put_cache_item exact_add (\<lambda>e. ''exception'') app_cache
      \<lparr>is_json = True, get_json = Inr (PDict [(''ttl'', PInt 5)])\<rparr>
      ''k'' 0 0 0 ''ts''
     = ((PDict [(''error'', PStr ''Missing required field: value'')], 400), app_cache)
   \<and> put_cache_item exact_add (\<lambda>e. ''exception'') app_cache
      \<lparr>is_json = False, get_json = Inl (Raised ''not JSON'')\<rparr>
      ''k'' 0 0 0 ''ts''
     = ((PDict [(''error'', PStr ''Content-Type must be application/json'')], 400), app_cache)"
proof -
  let ?f = "\<lambda>r. put_cache_item exact_add (\<lambda>e. ''exception'') app_cache r ''k'' 0 0 0 ''ts''"
  let ?r1 = "\<lparr>is_json = True, get_json = Inr (PDict [(''value'', PInt 1), (''ttl'', PInt (- 1))])\<rparr>"
  let ?r2 = "\<lparr>is_json = True, get_json = Inr (PDict [(''value'', PInt 1), (''ttl'', PStr ''soon'')])\<rparr>"
  let ?r3 = "\<lparr>is_json = True, get_json = Inr (PDict [(''ttl'', PInt 5)])\<rparr>"
  let ?r4 = "\<lparr>is_json = False, get_json = Inl (Raised ''not JSON'')\<rparr>"
  have 1: "snd (fst (?f ?r1)) = 400 \<and> snd (?f ?r1) = app_cache"
    by (rule put_cache_item_rejects_without_storing) simp
  have 2: "snd (fst (?f ?r2)) = 400 \<and> snd (?f ?r2) = app_cache"
    by (rule put_cache_item_rejects_without_storing) simp
  have 3: "snd (fst (?f ?r3)) = 400 \<and> snd (?f ?r3) = app_cache"
    by (rule put_cache_item_rejects_without_storing) simp
  have 4: "snd (fst (?f ?r4)) = 400 \<and> snd (?f ?r4) = app_cache"
    by (rule put_cache_item_rejects_without_storing) simp
  have b: "fst (fst (?f ?r1)) = PDict [(''error'', PStr ''TTL must be a non-negative integer'')]"
      "fst (fst (?f ?r2)) = PDict [(''error'', PStr ''TTL must be a non-negative integer'')]"
      "fst (fst (?f ?r3)) = PDict [(''error'', PStr ''Missing required field: value'')]"
      "fst (fst (?f ?r4)) = PDict [(''error'', PStr ''Content-Type must be application/json'')]"
    by (simp_all add: put_cache_item_def)
  from 1 2 3 4 b show ?thesis by (simp add: prod_eq_iff)
qed

end
